theory Spec2Isabelle
  imports Main "HOL-Library.AList" "HOL-Library.Sublist"
begin

section \<open>Data model of \<open>phalanx.services.secrets\<close>\<close>

text \<open>
  A \<open>SecretStr\<close> wraps a Python string. Python dictionaries keep insertion order, and
  the audit report and the order of the Vault operations depend on it, so a dictionary is
  an association list: assigning to an existing key keeps its position, assigning to a
  new key appends it (\<open>AList.update\<close>), \<open>d.get(k)\<close> is \<open>map_of d k\<close>.
\<close>

type_synonym secret_str = string

type_synonym ('k, 'v) dict = "('k \<times> 'v) list"

type_synonym secret_table = "(string, (string, secret_str) dict) dict"

text \<open>
  Truthiness of an optional \<open>SecretStr\<close>, as tested by \<open>if config.value\<close>,
  \<open>if not other\<close>, \<open>if current_value\<close>, \<open>if secret\<close> and \<open>static_value or
  current_value\<close>: \<open>None\<close> is false, and so is a \<open>SecretStr\<close> of length zero
  (the class defines \<open>__len__\<close>).
\<close>

definition truthy :: "secret_str option \<Rightarrow> bool" where
  "truthy v = (case v of None \<Rightarrow> False | Some s \<Rightarrow> s \<noteq> [])"

text \<open>
  Modelled from the spec: the declarations of \<open>phalanx.models.secrets\<close>, which are not
  part of the source file. A secret declaration names an application and a key and may
  carry a literal value, a copy rule and a generate rule; a generate rule is either plain
  or the from-source variant (\<open>SourceSecretGenerateRules\<close>), which names the key of
  another secret of the same application.
\<close>

datatype secret_copy_rules =
  SecretCopyRules (copy_application: string) (copy_key: string)

datatype generate_rules =
  SecretGenerateRules (rule_type: string)
| SourceSecretGenerateRules (rule_type: string) (source: string)

record secret =
  application :: string
  key :: string
  secret_value :: "secret_str option"
  copy_rules :: "secret_copy_rules option"
  generate :: "generate_rules option"

record static_secret =
  description :: string
  static_value :: "secret_str option"

text \<open>
  Modelled from the spec: a pull secret holds container-registry credentials, one entry
  per registry.
\<close>

record registry_credentials =
  username :: string
  password :: secret_str

record pull_secret =
  registries :: "(string, registry_credentials) dict"

record static_secrets =
  static_applications :: "(string, (string, static_secret) dict) dict"
  static_pull_secret :: "pull_secret option"

record resolved_secrets =
  applications :: secret_table
  pull_secret :: "pull_secret option"

datatype error =
  UnresolvedSecretsError "secret list"
| NoOnepasswordConfigError string

text \<open>
  Modelled from the spec: \<open>generate()\<close> of the generate rules is not part of the source
  file and draws on randomness, the clock or a salt. It is a parameter of the model: the
  generation function receives the number of values generated so far in this run (so
  that two calls may return different values), the rule, and the source secret for the
  from-source variant.
\<close>

type_synonym generator = "nat \<Rightarrow> generate_rules \<Rightarrow> secret_str option \<Rightarrow> secret_str"

text \<open>Modelled from the spec: \<open>StaticSecrets()\<close> and \<open>StaticSecrets.for_application\<close>.\<close>

definition empty_static_secrets :: static_secrets where
  "empty_static_secrets = \<lparr>static_applications = [], static_pull_secret = None\<rparr>"

definition for_application :: "static_secrets \<Rightarrow> string \<Rightarrow> (string, static_secret) dict" where
  "for_application s app_name =
     (case map_of (static_applications s) app_name of None \<Rightarrow> [] | Some d \<Rightarrow> d)"

subsection \<open>Nested dictionaries\<close>

text \<open>\<open>table.get(app, {}).get(key)\<close>\<close>

definition table_get :: "secret_table \<Rightarrow> string \<Rightarrow> string \<Rightarrow> secret_str option" where
  "table_get t app k = (case map_of t app of None \<Rightarrow> None | Some d \<Rightarrow> map_of d k)"

text \<open>\<open>table[app][key] = v\<close> on a \<open>defaultdict(dict)\<close>\<close>

definition table_set :: "secret_table \<Rightarrow> string \<Rightarrow> string \<Rightarrow> secret_str \<Rightarrow> secret_table" where
  "table_set t app k v =
     AList.update app (AList.update k v (case map_of t app of None \<Rightarrow> [] | Some d \<Rightarrow> d)) t"

section \<open>The value resolver\<close>

text \<open>
  \<open>_resolve_secret\<close>. The result is the resolved value, or \<open>None\<close> when the secret
  cannot be resolved yet, together with the advanced count of generated values.
\<close>

definition resolve_secret ::
  "generator \<Rightarrow> nat \<Rightarrow> secret \<Rightarrow> secret_table \<Rightarrow> secret_str option \<Rightarrow> secret_str option
     \<Rightarrow> bool \<Rightarrow> secret_str option \<times> nat" where
  "resolve_secret gen n config resolved current_value static_val regenerate =
     (if truthy (secret_value config) then (secret_value config, n)
      else case copy_rules config of
        Some cr \<Rightarrow>
          (let other = table_get resolved (copy_application cr) (copy_key cr)
           in if \<not> truthy other then (None, n) else (other, n))
      | None \<Rightarrow>
          (case generate config of
             Some g \<Rightarrow>
               if truthy current_value \<and> \<not> regenerate then (current_value, n)
               else (case g of
                       SourceSecretGenerateRules t other_key \<Rightarrow>
                         (let other = table_get resolved (application config) other_key
                          in if \<not> truthy other then (None, n)
                             else (Some (gen n g other), Suc n))
                     | SecretGenerateRules t \<Rightarrow> (Some (gen n g None), Suc n))
           | None \<Rightarrow> (if truthy static_val then static_val else current_value, n)))"

text \<open>
  One iteration of the \<open>for config in secrets\<close> loop of \<open>_resolve_secrets\<close>, on the
  state \<open>(resolved, unresolved, n)\<close>.
\<close>

definition resolve_step ::
  "generator \<Rightarrow> secret_table \<Rightarrow> static_secrets \<Rightarrow> bool \<Rightarrow> secret
     \<Rightarrow> secret_table \<times> secret list \<times> nat \<Rightarrow> secret_table \<times> secret list \<times> nat" where
  "resolve_step gen vault_secrets statics regenerate config st =
     (case st of (resolved, unresolved, n) \<Rightarrow>
        (let app_name = application config;
             vault_values = (case map_of vault_secrets app_name of None \<Rightarrow> [] | Some d \<Rightarrow> d);
             static_values = for_application statics app_name;
             static_val = (case map_of static_values (key config) of
                             None \<Rightarrow> None | Some s \<Rightarrow> static_value s)
         in case resolve_secret gen n config resolved (map_of vault_values (key config))
                   static_val regenerate of
              (secret, n') \<Rightarrow>
                (case secret of
                   None \<Rightarrow> (resolved, unresolved @ [config], n')
                 | Some s \<Rightarrow>
                     if s = [] then (resolved, unresolved @ [config], n')
                     else (table_set resolved (application config) (key config) s,
                           unresolved, n'))))"

text \<open>The whole \<open>for\<close> loop: one pass over the pending declarations.\<close>

definition resolve_pass ::
  "generator \<Rightarrow> secret_table \<Rightarrow> static_secrets \<Rightarrow> bool \<Rightarrow> secret list
     \<Rightarrow> secret_table \<times> secret list \<times> nat \<Rightarrow> secret_table \<times> secret list \<times> nat" where
  "resolve_pass gen vault_secrets statics regenerate secrets st =
     fold (resolve_step gen vault_secrets statics regenerate) secrets st"

text \<open>
  The \<open>while unresolved\<close> loop, on the variables \<open>resolved\<close>, \<open>unresolved\<close> and
  \<open>left\<close>. The last argument counts the passes made so far; it is not a variable of the
  source and no branch reads it.
\<close>

function resolve_loop ::
  "generator \<Rightarrow> secret_table \<Rightarrow> static_secrets \<Rightarrow> bool \<Rightarrow> secret_table \<Rightarrow> secret list
     \<Rightarrow> nat \<Rightarrow> nat \<Rightarrow> nat \<Rightarrow> error + (secret_table \<times> nat)" where
  "resolve_loop gen vault_secrets statics regenerate resolved unresolved left n passes =
     (if unresolved = [] then Inr (resolved, passes)
      else case resolve_pass gen vault_secrets statics regenerate unresolved (resolved, [], n) of
        (resolved', unresolved', n') \<Rightarrow>
          if length unresolved' \<ge> left then Inl (UnresolvedSecretsError unresolved')
          else resolve_loop gen vault_secrets statics regenerate resolved' unresolved'
                 (length unresolved') n' (Suc passes))"
  by pat_completeness auto
termination
  by (relation "measure (\<lambda>(gen, vault_secrets, statics, regenerate, resolved, unresolved,
                           left, n, passes). left)") auto

declare resolve_loop.simps [simp del]

text \<open>\<open>_resolve_secrets\<close>\<close>

definition resolve_secrets ::
  "generator \<Rightarrow> secret list \<Rightarrow> secret_table \<Rightarrow> static_secrets option \<Rightarrow> bool
     \<Rightarrow> error + resolved_secrets" where
  "resolve_secrets gen secrets vault_secrets statics regenerate =
     (let statics' = (case statics of None \<Rightarrow> empty_static_secrets | Some s \<Rightarrow> s)
      in case resolve_loop gen vault_secrets statics' regenerate [] secrets (length secrets) 0 0 of
           Inl e \<Rightarrow> Inl e
         | Inr (resolved, passes) \<Rightarrow>
             Inr \<lparr>applications = resolved, pull_secret = static_pull_secret statics'\<rparr>)"

section \<open>The reconciler\<close>

text \<open>
  Modelled from the spec: the Vault client is not part of the source file. Its three
  mutating calls are recorded as values, in the order in which the code issues them:
  \<open>store_application_secret\<close> writes the whole entry of an application (creating or
  replacing it), \<open>update_application_secret\<close> writes one key of an entry and
  \<open>delete_application_secret\<close> removes the entry. \<open>apply_op\<close> is their effect on the
  store, whose contents \<open>get_environment_secrets\<close> returns.
\<close>

datatype vault_op =
  StoreApplicationSecret string "(string, secret_str) dict"
| UpdateApplicationSecret string string secret_str
| DeleteApplicationSecret string

fun apply_op :: "vault_op \<Rightarrow> secret_table \<Rightarrow> secret_table" where
  "apply_op (StoreApplicationSecret app vals) store = AList.update app vals store"
| "apply_op (UpdateApplicationSecret app k v) store = table_set store app k v"
| "apply_op (DeleteApplicationSecret app) store = AList.delete app store"

definition apply_ops :: "vault_op list \<Rightarrow> secret_table \<Rightarrow> secret_table" where
  "apply_ops ops store = fold apply_op ops store"

text \<open>Equality of two Python dictionaries: the same keys with the same values.\<close>

definition dict_eq :: "(string, secret_str) dict \<Rightarrow> (string, secret_str) dict \<Rightarrow> bool" where
  "dict_eq a b = list_all (\<lambda>k. map_of a k = map_of b k) (map fst a @ map fst b)"

text \<open>\<open>_sync_application_secrets\<close>\<close>

definition sync_application_secrets :: "secret_table \<Rightarrow> resolved_secrets \<Rightarrow> vault_op list" where
  "sync_application_secrets vault_secrets resolved =
     concat (map (\<lambda>(app, vals).
        case map_of vault_secrets app of
          None \<Rightarrow> [StoreApplicationSecret app vals]
        | Some vault_app_secrets \<Rightarrow>
            concat (map (\<lambda>(k, s).
               if Some s \<noteq> map_of vault_app_secrets k
               then [UpdateApplicationSecret app k s] else []) vals))
       (applications resolved))"

text \<open>
  \<open>_sync_pull_secret\<close>. \<open>PullSecret.to_dockerconfigjson\<close> is not part of the source
  file; the serializer is a parameter.
\<close>

definition sync_pull_secret ::
  "(pull_secret \<Rightarrow> string) \<Rightarrow> secret_table \<Rightarrow> pull_secret \<Rightarrow> vault_op list" where
  "sync_pull_secret to_dockerconfigjson vault_secrets ps =
     (let val = to_dockerconfigjson ps;
          secret = [(''.dockerconfigjson'', val)]
      in case map_of vault_secrets ''pull-secret'' of
           None \<Rightarrow> [StoreApplicationSecret ''pull-secret'' secret]
         | Some cur \<Rightarrow>
             if \<not> dict_eq secret cur then [StoreApplicationSecret ''pull-secret'' secret]
             else [])"

text \<open>\<open>_clean_vault_secrets\<close>\<close>

definition clean_vault_secrets :: "secret_table \<Rightarrow> resolved_secrets \<Rightarrow> bool \<Rightarrow> vault_op list" where
  "clean_vault_secrets vault_secrets resolved has_pull_secret =
     concat (map (\<lambda>(app, vals).
        case map_of (applications resolved) app of
          None \<Rightarrow>
            if app = ''pull-secret'' \<and> has_pull_secret then []
            else [DeleteApplicationSecret app]
        | Some expected \<Rightarrow>
            (let to_delete = filter (\<lambda>k. k \<notin> set (map fst expected)) (map fst vals)
             in if to_delete \<noteq> []
                then [StoreApplicationSecret app
                        (filter (\<lambda>(k, v). k \<notin> set to_delete) vals)]
                else []))
       vault_secrets)"

text \<open>
  \<open>sync\<close>. The declarations of the environment, the contents of Vault and the static
  secrets of 1Password come from collaborators and are arguments; the result is the
  list of Vault operations performed, or the error raised by the resolver.
\<close>

definition sync ::
  "generator \<Rightarrow> (pull_secret \<Rightarrow> string) \<Rightarrow> secret list \<Rightarrow> secret_table
     \<Rightarrow> static_secrets option \<Rightarrow> static_secrets option \<Rightarrow> bool \<Rightarrow> bool
     \<Rightarrow> error + vault_op list" where
  "sync gen to_dockerconfigjson secrets vault_secrets statics onepassword regenerate delete =
     (let statics' = (case statics of None \<Rightarrow> onepassword | Some s \<Rightarrow> Some s)
      in case resolve_secrets gen secrets vault_secrets statics' regenerate of
           Inl e \<Rightarrow> Inl e
         | Inr resolved \<Rightarrow>
             Inr (sync_application_secrets vault_secrets resolved
                  @ (case pull_secret resolved of
                       None \<Rightarrow> []
                     | Some ps \<Rightarrow>
                         if registries ps \<noteq> []
                         then sync_pull_secret to_dockerconfigjson vault_secrets ps else [])
                  @ (if delete
                     then clean_vault_secrets vault_secrets resolved
                            (pull_secret resolved \<noteq> None)
                     else [])))"

section \<open>The auditor\<close>

text \<open>
  The body of the inner loop of \<open>audit\<close> for one key of one application, on the state
  \<open>(vault_secrets, missing, mismatch)\<close>. The source builds the strings
  \<open>f"{app_name} {key}"\<close>; the model keeps the pairs and renders them in \<open>audit_report\<close>.
\<close>

definition audit_step ::
  "string \<Rightarrow> string \<times> secret_str
     \<Rightarrow> secret_table \<times> (string \<times> string) list \<times> (string \<times> string) list
     \<Rightarrow> secret_table \<times> (string \<times> string) list \<times> (string \<times> string) list" where
  "audit_step app_name ks st =
     (case ks of (k, secret) \<Rightarrow>
      case st of (vault_secrets, missing, mismatch) \<Rightarrow>
        (case map_of (case map_of vault_secrets app_name of None \<Rightarrow> [] | Some d \<Rightarrow> d) k of
           None \<Rightarrow> (vault_secrets, missing @ [(app_name, k)], mismatch)
         | Some cur \<Rightarrow>
             (AList.map_entry app_name (AList.delete k) vault_secrets,
              missing,
              if secret \<noteq> cur then mismatch @ [(app_name, k)] else mismatch)))"

text \<open>The two nested loops, then the comprehension that collects the unknown secrets.\<close>

definition audit_compare ::
  "resolved_secrets \<Rightarrow> secret_table
     \<Rightarrow> (string \<times> string) list \<times> (string \<times> string) list \<times> (string \<times> string) list" where
  "audit_compare resolved vault_secrets =
     (case fold (\<lambda>(app_name, vals) st. fold (audit_step app_name) vals st)
             (applications resolved) (vault_secrets, [], []) of
        (vault_secrets', missing, mismatch) \<Rightarrow>
          (missing, mismatch,
           concat (map (\<lambda>(a, lv). map (\<lambda>(k, v). (a, k)) lv) vault_secrets')))"

fun join :: "string \<Rightarrow> string list \<Rightarrow> string" where
  "join sep [] = []"
| "join sep [x] = x"
| "join sep (x # y # ys) = x @ sep @ join sep (y # ys)"

text \<open>The separator: a line feed, the bullet U+2022 (three bytes in UTF-8) and a space.\<close>

definition bullet_sep :: string where
  "bullet_sep = [CHR 0x0A, CHR 0xE2, CHR 0x80, CHR 0xA2, CHR '' '']"

definition entry_text :: "string \<times> string \<Rightarrow> string" where
  "entry_text e = fst e @ '' '' @ snd e"

definition report_section :: "string \<Rightarrow> (string \<times> string) list \<Rightarrow> string" where
  "report_section heading entries =
     (if entries \<noteq> []
      then heading @ bullet_sep @ join bullet_sep (map entry_text entries) @ [CHR 0x0A]
      else [])"

definition audit_report ::
  "(string \<times> string) list \<times> (string \<times> string) list \<times> (string \<times> string) list \<Rightarrow> string" where
  "audit_report groups =
     (case groups of (missing, mismatch, unknown) \<Rightarrow>
        report_section ''Missing secrets:'' missing
        @ report_section ''Incorrect secrets:'' mismatch
        @ report_section ''Unknown secrets in Vault:'' unknown)"

text \<open>\<open>audit\<close>\<close>

definition audit ::
  "generator \<Rightarrow> secret list \<Rightarrow> secret_table \<Rightarrow> static_secrets option
     \<Rightarrow> static_secrets option \<Rightarrow> error + string" where
  "audit gen secrets vault_secrets statics onepassword =
     (let statics' = (case statics of None \<Rightarrow> onepassword | Some s \<Rightarrow> Some s)
      in case resolve_secrets gen secrets vault_secrets statics' False of
           Inl e \<Rightarrow> Inl e
         | Inr resolved \<Rightarrow> Inr (audit_report (audit_compare resolved vault_secrets)))"

section \<open>Notions used in the statements\<close>

text \<open>The \<open>(application, key)\<close> pair that a declaration defines.\<close>

definition key_of :: "secret \<Rightarrow> string \<times> string" where
  "key_of config = (application config, key config)"

text \<open>
  The call of \<open>_resolve_secret\<close> made by the loop body for one declaration: the current
  value is \<open>vault_secrets.get(app, {}).get(key)\<close>, the static value the one looked up
  in the static secrets of the application.
\<close>

definition attempt ::
  "generator \<Rightarrow> secret_table \<Rightarrow> static_secrets \<Rightarrow> bool \<Rightarrow> secret_table \<Rightarrow> nat \<Rightarrow> secret
     \<Rightarrow> secret_str option \<times> nat" where
  "attempt gen vault_secrets statics regenerate resolved n config =
     resolve_secret gen n config resolved
       (table_get vault_secrets (application config) (key config))
       (case map_of (for_application statics (application config)) (key config) of
          None \<Rightarrow> None | Some s \<Rightarrow> static_value s)
       regenerate"

text \<open>
  A loop state covers the declarations when the pending ones are a subsequence of them,
  every other declaration has a value in the table, and the table has no other entry.
  A pending list is stalled when a pass over it, from a table covering the declarations,
  leaves all of it pending.
\<close>

definition covered :: "secret list \<Rightarrow> secret list \<Rightarrow> secret_table \<Rightarrow> bool" where
  "covered secrets P R \<longleftrightarrow>
     subseq P secrets
     \<and> (\<forall>c\<in>set secrets. c \<in> set P \<or> truthy (table_get R (application c) (key c)))
     \<and> (\<forall>a k. table_get R a k \<noteq> None \<longrightarrow> (a, k) \<in> key_of ` set secrets)"

definition stalled ::
  "generator \<Rightarrow> secret_table \<Rightarrow> static_secrets \<Rightarrow> bool \<Rightarrow> secret list \<Rightarrow> secret list \<Rightarrow> bool" where
  "stalled gen V S rg secrets P \<longleftrightarrow>
     P \<noteq> [] \<and> (\<exists>R n. covered secrets P R
                  \<and> fst (snd (resolve_pass gen V S rg P (R, [], n))) = P)"

text \<open>A declaration without a literal value whose copy rule points into the set \<open>K\<close>.\<close>

definition copies_into :: "(string \<times> string) set \<Rightarrow> secret \<Rightarrow> bool" where
  "copies_into K d \<longleftrightarrow>
     \<not> truthy (secret_value d)
     \<and> (\<exists>cr. copy_rules d = Some cr \<and> (copy_application cr, copy_key cr) \<in> K)"

text \<open>
  The \<open>(application, key)\<close> pairs of a table in the order of its entries, and the
  well-formedness of a table as a nested Python dictionary: no application and, within
  an application, no key occurs twice.
\<close>

definition table_keys :: "secret_table \<Rightarrow> (string \<times> string) list" where
  "table_keys t = concat (map (\<lambda>(a, d). map (\<lambda>(k, v). (a, k)) d) t)"

definition well_formed :: "secret_table \<Rightarrow> bool" where
  "well_formed t \<longleftrightarrow> distinct (map fst t) \<and> list_all (\<lambda>(a, d). distinct (map fst d)) t"

text \<open>
  The pairs that a declaration refers to: the source of its copy rule and, for the
  from-source variant of a generate rule, the source key in its own application.
\<close>

definition references :: "secret \<Rightarrow> (string \<times> string) list" where
  "references c =
     (case copy_rules c of
        None \<Rightarrow> []
      | Some cr \<Rightarrow> [(copy_application cr, copy_key cr)])
     @ (case generate c of
          Some (SourceSecretGenerateRules t k) \<Rightarrow> [(application c, k)]
        | _ \<Rightarrow> [])"

text \<open>
  The references of a declaration set form a directed acyclic graph over the
  declarations when some rank decreases along every reference: each referenced pair is
  declared by a declaration of strictly lower rank. The longest chain of references has
  as many declarations as the least bound on such a rank.
\<close>

definition ranked :: "(secret \<Rightarrow> nat) \<Rightarrow> secret list \<Rightarrow> bool" where
  "ranked rk secrets =
     list_all (\<lambda>c. list_all (\<lambda>p. list_ex (\<lambda>c'. key_of c' = p \<and> rk c' < rk c) secrets)
                      (references c)) secrets"

text \<open>
  A declaration has a source when it carries a literal value or a rule, or a non-empty
  static or current value exists for it; \<open>_resolve_secret\<close> returns nothing for the
  others.
\<close>

definition sourced :: "secret_table \<Rightarrow> static_secrets \<Rightarrow> secret \<Rightarrow> bool" where
  "sourced vault_secrets statics c =
     (truthy (secret_value c) \<or> copy_rules c \<noteq> None \<or> generate c \<noteq> None
      \<or> truthy (case map_of (for_application statics (application c)) (key c) of
                  None \<Rightarrow> None | Some s \<Rightarrow> static_value s)
      \<or> truthy (table_get vault_secrets (application c) (key c)))"

text \<open>
  A table is faithful to a declaration with a copy rule and no literal value when it
  holds a value for the declaration and the same value for the pair the rule refers to.
  A state is settled when every entry of the table belongs to a declaration that is no
  longer pending and the table is faithful to every such declaration.
\<close>

definition faithful :: "secret_table \<Rightarrow> secret \<Rightarrow> bool" where
  "faithful R c \<longleftrightarrow>
     (case copy_rules c of
        None \<Rightarrow> True
      | Some cr \<Rightarrow>
          truthy (secret_value c)
          \<or> (truthy (table_get R (application c) (key c))
              \<and> table_get R (application c) (key c)
                  = table_get R (copy_application cr) (copy_key cr)))"

definition settled :: "secret list \<Rightarrow> secret set \<Rightarrow> secret_table \<Rightarrow> bool" where
  "settled secrets Pend R \<longleftrightarrow>
     (\<forall>a k. table_get R a k \<noteq> None
        \<longrightarrow> (\<exists>c\<in>set secrets. key_of c = (a, k) \<and> c \<notin> Pend))
     \<and> (\<forall>c\<in>set secrets. c \<notin> Pend \<longrightarrow> faithful R c)"

text \<open>
  The classification of an \<open>(application, key)\<close> pair in the words of the
  specification: unknown when the pair is not resolved, missing when it is resolved and
  absent from the snapshot, a mismatch when it is in both with different values, and ok
  when it is in both with the same value.
\<close>

datatype audit_class = Ok | Missing | Mismatch | Unknown

definition classification :: "secret_table \<Rightarrow> secret_table \<Rightarrow> string \<times> string \<Rightarrow> audit_class" where
  "classification resolved vault_secrets p =
     (case table_get resolved (fst p) (snd p) of
        None \<Rightarrow> Unknown
      | Some v \<Rightarrow>
          (case table_get vault_secrets (fst p) (snd p) of
             None \<Rightarrow> Missing
           | Some cur \<Rightarrow> if v = cur then Ok else Mismatch))"

section \<open>Example declarations\<close>

text \<open>
  A generation function whose value depends on the number of values generated before,
  the two declarations of the specification's example scenario, two declarations that
  copy from each other, a literal and a static declaration, a serializer that stands in
  for \<open>to_dockerconfigjson\<close>, and some contents of Vault.
\<close>

definition tally_generator :: generator where
  "tally_generator n g other = ''generated'' @ replicate n (CHR ''+'')"

definition db_password :: secret where
  "db_password = \<lparr>application = ''db'', key = ''password'', secret_value = None,
     copy_rules = None, generate = Some (SecretGenerateRules ''password'')\<rparr>"

definition api_dbpass :: secret where
  "api_dbpass = \<lparr>application = ''api'', key = ''dbpass'', secret_value = None,
     copy_rules = Some (SecretCopyRules ''db'' ''password''), generate = None\<rparr>"

definition front_token :: secret where
  "front_token = \<lparr>application = ''front'', key = ''token'', secret_value = None,
     copy_rules = Some (SecretCopyRules ''back'' ''token''), generate = None\<rparr>"

definition back_token :: secret where
  "back_token = \<lparr>application = ''back'', key = ''token'', secret_value = None,
     copy_rules = Some (SecretCopyRules ''front'' ''token''), generate = None\<rparr>"

definition api_token :: secret where
  "api_token = \<lparr>application = ''api'', key = ''token'', secret_value = Some ''new'',
     copy_rules = None, generate = None\<rparr>"

definition api_static :: secret where
  "api_static = \<lparr>application = ''api'', key = ''license'', secret_value = None,
     copy_rules = None, generate = None\<rparr>"

definition plain_dockerconfigjson :: "pull_secret \<Rightarrow> string" where
  "plain_dockerconfigjson ps =
     concat (map (\<lambda>(registry, c). registry @ '' '' @ username c @ '' '' @ password c @ '';'')
               (registries ps))"

definition registry_pull_secret :: "secret_str \<Rightarrow> pull_secret" where
  "registry_pull_secret pw =
     \<lparr>registries = [(''ghcr.io'', \<lparr>username = ''bot'', password = pw\<rparr>)]\<rparr>"

definition pull_secret_statics :: static_secrets where
  "pull_secret_statics =
     \<lparr>static_applications = [], static_pull_secret = Some (registry_pull_secret ''new'')\<rparr>"

definition stale_vault :: secret_table where
  "stale_vault =
     [(''pull-secret'', [(''.dockerconfigjson'', ''ghcr.io bot new;'')]),
      (''stale'', [(''token'', ''abc'')])]"

definition drifted_vault :: secret_table where
  "drifted_vault = [(''api'', [(''token'', ''old''), (''legacy'', ''x'')])]"

definition vault_with_db_password :: secret_table where
  "vault_with_db_password = [(''db'', [(''password'', ''in-vault'')])]"

definition statics_with_db_password :: static_secrets where
  "statics_with_db_password =
     \<lparr>static_applications =
        [(''db'', [(''password'', \<lparr>description = ''database password'',
                                   static_value = Some ''in-static''\<rparr>)])],
      static_pull_secret = None\<rparr>"

text \<open>A rank for the example declarations: the number of references.\<close>

definition reference_count :: "secret \<Rightarrow> nat" where
  "reference_count c = length (references c)"

text \<open>A resolved set and a snapshot of Vault with pairs of every class.\<close>

definition audited_resolved :: resolved_secrets where
  "audited_resolved =
     \<lparr>applications = [(''api'', [(''token'', ''new''), (''license'', ''abc'')]),
                      (''db'', [(''password'', ''generated''), (''user'', ''admin'')])],
      pull_secret = None\<rparr>"

definition audited_vault :: secret_table where
  "audited_vault =
     [(''db'', [(''legacy'', ''x''), (''user'', ''root'')]),
      (''api'', [(''license'', ''abc''), (''token'', ''old'')]),
      (''old-app'', [(''key'', ''v'')])]"

text \<open>
  A declaration with a from-source generate rule, a literal declaration, the declarations
  whose resolution against \<open>audited_vault\<close> is \<open>audited_resolved\<close>, static secrets
  whose pull secret has no registry, and a snapshot with an outdated pull secret.
\<close>

definition db_hash :: secret where
  "db_hash = \<lparr>application = ''db'', key = ''hash'', secret_value = None,
     copy_rules = None,
     generate = Some (SourceSecretGenerateRules ''bcrypt-password-hash'' ''password'')\<rparr>"

definition db_user :: secret where
  "db_user = \<lparr>application = ''db'', key = ''user'', secret_value = Some ''admin'',
     copy_rules = None, generate = None\<rparr>"

definition audited_secrets :: "secret list" where
  "audited_secrets = [api_token, api_static, db_password, db_user]"

definition empty_pull_secret_statics :: static_secrets where
  "empty_pull_secret_statics =
     \<lparr>static_applications = [], static_pull_secret = Some \<lparr>registries = []\<rparr>\<rparr>"

definition outdated_vault :: secret_table where
  "outdated_vault =
     [(''pull-secret'', [(''.dockerconfigjson'', ''ghcr.io bot old;'')]),
      (''stale'', [(''token'', ''abc'')])]"

section \<open>The loop of the resolver\<close>

lemmas resolver_defs =
  resolve_secrets_def resolve_loop.simps resolve_pass_def resolve_step_def resolve_secret_def
  for_application_def empty_static_secrets_def truthy_def table_get_def table_set_def Let_def

lemma table_get_set:
  "table_get (table_set t a k v) a' k' =
     (if a' = a \<and> k' = k then Some v else table_get t a' k')"
  by (auto simp: table_get_def table_set_def update_conv' split: option.splits)

lemma resolve_step_attempt:
  "resolve_step gen V S rg c (R, U, n) =
     (if truthy (fst (attempt gen V S rg R n c))
      then (table_set R (application c) (key c) (the (fst (attempt gen V S rg R n c))), U,
            snd (attempt gen V S rg R n c))
      else (R, U @ [c], snd (attempt gen V S rg R n c)))"
  by (auto simp: resolve_step_def attempt_def Let_def truthy_def table_get_def
        split: prod.splits option.splits)

lemma resolve_step_cases:
  obtains (resolved) v where "fst (attempt gen V S rg R n c) = Some v" and "v \<noteq> []"
      and "resolve_step gen V S rg c (R, U, n) =
             (table_set R (application c) (key c) v, U, snd (attempt gen V S rg R n c))"
  | (pending) "\<not> truthy (fst (attempt gen V S rg R n c))"
      and "resolve_step gen V S rg c (R, U, n) = (R, U @ [c], snd (attempt gen V S rg R n c))"
proof (cases "truthy (fst (attempt gen V S rg R n c))")
  case True
  then obtain v where "fst (attempt gen V S rg R n c) = Some v" and "v \<noteq> []"
    by (auto simp: truthy_def split: option.splits)
  then show ?thesis using True resolved by (simp add: resolve_step_attempt)
next
  case False
  then show ?thesis using pending by (simp add: resolve_step_attempt)
qed

lemma resolve_pass_Nil: "resolve_pass gen V S rg [] st = st"
  by (simp add: resolve_pass_def)

lemma resolve_pass_Cons:
  "resolve_pass gen V S rg (c # cs) st = resolve_pass gen V S rg cs (resolve_step gen V S rg c st)"
  by (simp add: resolve_pass_def)

lemma resolve_pass_snoc:
  "resolve_pass gen V S rg (cs @ [c]) st = resolve_step gen V S rg c (resolve_pass gen V S rg cs st)"
  by (simp add: resolve_pass_def)

text \<open>Invariant rule for one pass: the invariant may mention the declarations already visited.\<close>

lemma resolve_pass_invariant:
  assumes init: "I [] st"
    and step: "\<And>pre c post s. cs = pre @ c # post \<Longrightarrow> I pre s
                 \<Longrightarrow> I (pre @ [c]) (resolve_step gen V S rg c s)"
  shows "I cs (resolve_pass gen V S rg cs st)"
proof -
  have "I pre (resolve_pass gen V S rg pre st)" if "cs = pre @ post" for pre post
    using that
  proof (induction pre arbitrary: post rule: rev_induct)
    case Nil
    show ?case using init by (simp only: resolve_pass_Nil)
  next
    case (snoc c pre)
    from snoc.prems have eq: "cs = pre @ c # post" by simp
    have "I pre (resolve_pass gen V S rg pre st)" by (rule snoc.IH [OF eq])
    from step [OF eq this] show ?case by (simp only: resolve_pass_snoc)
  qed
  from this [of cs "[]"] show ?thesis by simp
qed

text \<open>Rule for the while loop, entered with \<open>left = len(unresolved)\<close>.\<close>

lemma resolve_loop_rule:
  assumes inv: "J R P p"
    and pass: "\<And>R P n p R' P' n'. J R P p \<Longrightarrow> P \<noteq> []
                 \<Longrightarrow> resolve_pass gen V S rg P (R, [], n) = (R', P', n')
                 \<Longrightarrow> length P' < length P \<Longrightarrow> J R' P' (Suc p)"
    and fin: "\<And>R p. J R [] p \<Longrightarrow> Q (Inr (R, p))"
    and fail: "\<And>R P n p R' P' n'. J R P p \<Longrightarrow> P \<noteq> []
                 \<Longrightarrow> resolve_pass gen V S rg P (R, [], n) = (R', P', n')
                 \<Longrightarrow> length P \<le> length P' \<Longrightarrow> Q (Inl (UnresolvedSecretsError P'))"
  shows "Q (resolve_loop gen V S rg R P (length P) n p)"
  using inv
proof (induction "length P" arbitrary: R P n p rule: less_induct)
  case less
  show ?case
  proof (cases "P = []")
    case True
    then show ?thesis using less.prems fin by (simp add: resolve_loop.simps)
  next
    case False
    obtain R' P' n' where ps: "resolve_pass gen V S rg P (R, [], n) = (R', P', n')"
      by (cases "resolve_pass gen V S rg P (R, [], n)") auto
    show ?thesis
    proof (cases "length P \<le> length P'")
      case True
      then show ?thesis
        using False ps fail [OF less.prems False ps True]
        by (subst resolve_loop.simps) simp
    next
      case no: False
      then have lt: "length P' < length P" by simp
      have "J R' P' (Suc p)" by (rule pass [OF less.prems False ps lt])
      then have "Q (resolve_loop gen V S rg R' P' (length P') n' (Suc p))"
        using less.hyps [OF lt] by simp
      then show ?thesis
        using False ps no by (subst resolve_loop.simps) simp
    qed
  qed
qed

subsection \<open>What one pass does\<close>

lemma subseq_set: "subseq xs ys \<Longrightarrow> x \<in> set xs \<Longrightarrow> x \<in> set ys"
  by (induction rule: list_emb.induct) auto

lemma pass_pending:
  "\<exists>W. fst (snd (resolve_pass gen V S rg cs (R, U, n))) = U @ W \<and> subseq W cs"
proof (rule resolve_pass_invariant
    [where I = "\<lambda>pre st. \<exists>W. fst (snd st) = U @ W \<and> subseq W pre"])
  show "\<exists>W. fst (snd (R, U, n)) = U @ W \<and> subseq W []" by simp
next
  fix pre c post and s :: "secret_table \<times> secret list \<times> nat"
  assume "\<exists>W. fst (snd s) = U @ W \<and> subseq W pre"
  then obtain W where W: "fst (snd s) = U @ W" "subseq W pre" by blast
  obtain R1 U1 n1 where s: "s = (R1, U1, n1)" by (cases s) auto
  show "\<exists>W. fst (snd (resolve_step gen V S rg c s)) = U @ W \<and> subseq W (pre @ [c])"
  proof (cases rule: resolve_step_cases [of gen V S rg R1 n1 c U1])
    case (resolved v)
    then show ?thesis using W s by (auto intro: subseq_rev_drop_many)
  next
    case pending
    have "subseq (W @ [c]) (pre @ [c])" using W(2) by (simp add: list_emb_append_mono)
    then show ?thesis using pending W s by auto
  qed
qed

lemma pass_pending_subseq:
  assumes "resolve_pass gen V S rg P (R, [], n) = (R', P', n')"
  shows "subseq P' P"
  using pass_pending [of gen V S rg P R "[]" n] assms by simp

lemma pass_stalled:
  assumes "resolve_pass gen V S rg P (R, [], n) = (R', P', n')" and "length P \<le> length P'"
  shows "P' = P"
proof -
  have sub: "subseq P' P" by (rule pass_pending_subseq [OF assms(1)])
  then have "length P' \<le> length P" by (rule list_emb_length)
  with assms(2) have "length P' = length P" by simp
  with sub show ?thesis by (rule subseq_same_length)
qed

lemma pass_domain:
  assumes "table_get (fst (resolve_pass gen V S rg cs (R, U, n))) a k \<noteq> None"
  shows "table_get R a k \<noteq> None \<or> (a, k) \<in> key_of ` set cs"
proof -
  have "\<forall>a k. table_get (fst (resolve_pass gen V S rg cs (R, U, n))) a k \<noteq> None
          \<longrightarrow> table_get R a k \<noteq> None \<or> (a, k) \<in> key_of ` set cs"
  proof (rule resolve_pass_invariant
      [where I = "\<lambda>pre st. \<forall>a k. table_get (fst st) a k \<noteq> None
          \<longrightarrow> table_get R a k \<noteq> None \<or> (a, k) \<in> key_of ` set pre"])
    show "\<forall>a k. table_get (fst (R, U, n)) a k \<noteq> None
          \<longrightarrow> table_get R a k \<noteq> None \<or> (a, k) \<in> key_of ` set []" by simp
  next
    fix pre c post and s :: "secret_table \<times> secret list \<times> nat"
    assume inv: "\<forall>a k. table_get (fst s) a k \<noteq> None
          \<longrightarrow> table_get R a k \<noteq> None \<or> (a, k) \<in> key_of ` set pre"
    obtain R1 U1 n1 where s: "s = (R1, U1, n1)" by (cases s) auto
    show "\<forall>a k. table_get (fst (resolve_step gen V S rg c s)) a k \<noteq> None
          \<longrightarrow> table_get R a k \<noteq> None \<or> (a, k) \<in> key_of ` set (pre @ [c])"
    proof (cases rule: resolve_step_cases [of gen V S rg R1 n1 c U1])
      case (resolved v)
      then show ?thesis using inv s
        by (auto simp: table_get_set key_of_def split: if_splits)
    next
      case pending
      then show ?thesis using inv s by auto
    qed
  qed
  then show ?thesis using assms by blast
qed

lemma pass_monotone:
  assumes "truthy (table_get R a k)"
  shows "truthy (table_get (fst (resolve_pass gen V S rg cs (R, U, n))) a k)"
proof (rule resolve_pass_invariant [where I = "\<lambda>pre st. truthy (table_get (fst st) a k)"])
  show "truthy (table_get (fst (R, U, n)) a k)" using assms by simp
next
  fix pre c post and s :: "secret_table \<times> secret list \<times> nat"
  assume inv: "truthy (table_get (fst s) a k)"
  obtain R1 U1 n1 where s: "s = (R1, U1, n1)" by (cases s) auto
  show "truthy (table_get (fst (resolve_step gen V S rg c s)) a k)"
  proof (cases rule: resolve_step_cases [of gen V S rg R1 n1 c U1])
    case (resolved v)
    then show ?thesis using inv s by (auto simp: table_get_set truthy_def)
  next
    case pending
    then show ?thesis using inv s by auto
  qed
qed

lemma step_monotone:
  assumes "truthy (table_get (fst s) a k)"
  shows "truthy (table_get (fst (resolve_step gen V S rg c s)) a k)"
  using pass_monotone [of "fst s" a k gen V S rg "[c]" "fst (snd s)" "snd (snd s)"] assms
  by (simp add: resolve_pass_def)

lemma pass_complete:
  assumes "c \<in> set cs"
  shows "c \<in> set (fst (snd (resolve_pass gen V S rg cs (R, U, n))))
     \<or> truthy (table_get (fst (resolve_pass gen V S rg cs (R, U, n))) (application c) (key c))"
proof -
  have "\<forall>c\<in>set cs. c \<in> set (fst (snd (resolve_pass gen V S rg cs (R, U, n))))
     \<or> truthy (table_get (fst (resolve_pass gen V S rg cs (R, U, n))) (application c) (key c))"
  proof (rule resolve_pass_invariant
      [where I = "\<lambda>pre st. \<forall>c\<in>set pre. c \<in> set (fst (snd st))
                    \<or> truthy (table_get (fst st) (application c) (key c))"])
    show "\<forall>c\<in>set []. c \<in> set (fst (snd (R, U, n)))
            \<or> truthy (table_get (fst (R, U, n)) (application c) (key c))" by simp
  next
    fix pre c post and s :: "secret_table \<times> secret list \<times> nat"
    assume inv: "\<forall>c\<in>set pre. c \<in> set (fst (snd s))
                    \<or> truthy (table_get (fst s) (application c) (key c))"
    obtain R1 U1 n1 where s: "s = (R1, U1, n1)" by (cases s) auto
    show "\<forall>c'\<in>set (pre @ [c]). c' \<in> set (fst (snd (resolve_step gen V S rg c s)))
            \<or> truthy (table_get (fst (resolve_step gen V S rg c s)) (application c') (key c'))"
    proof (cases rule: resolve_step_cases [of gen V S rg R1 n1 c U1])
      case (resolved v)
      then show ?thesis using inv s
        by (auto simp: table_get_set truthy_def)
    next
      case pending
      then show ?thesis using inv s by auto
    qed
  qed
  then show ?thesis using assms by blast
qed

lemma covered_pass:
  assumes J: "covered secrets P R"
    and ps: "resolve_pass gen V S rg P (R, [], n) = (R', P', n')"
  shows "covered secrets P' R'"
proof -
  have sub: "subseq P' P" by (rule pass_pending_subseq [OF ps])
  have J1: "subseq P secrets" using J by (simp add: covered_def)
  have J2: "c \<in> set P \<or> truthy (table_get R (application c) (key c))"
    if "c \<in> set secrets" for c using J that by (simp add: covered_def)
  have J3: "(a, k) \<in> key_of ` set secrets" if "table_get R a k \<noteq> None" for a k
    using J that by (simp add: covered_def)
  have 1: "subseq P' secrets" by (rule list_emb_trans [OF _ sub J1]) simp
  have 2: "c \<in> set P' \<or> truthy (table_get R' (application c) (key c))"
    if c: "c \<in> set secrets" for c
  proof (cases "c \<in> set P")
    case True
    from pass_complete [OF this, of gen V S rg R "[]" n] ps show ?thesis by simp
  next
    case False
    then have "truthy (table_get R (application c) (key c))" using J2 [OF c] by simp
    from pass_monotone [OF this, of gen V S rg P "[]" n] ps show ?thesis by simp
  qed
  have 3: "(a, k) \<in> key_of ` set secrets" if "table_get R' a k \<noteq> None" for a k
  proof -
    from pass_domain [of gen V S rg P R "[]" n a k] ps that
    have "table_get R a k \<noteq> None \<or> (a, k) \<in> key_of ` set P" by simp
    then show ?thesis
    proof
      assume "table_get R a k \<noteq> None"
      then show ?thesis by (rule J3)
    next
      assume "(a, k) \<in> key_of ` set P"
      then obtain c where "c \<in> set P" and "(a, k) = key_of c" by auto
      then show ?thesis using subseq_set [OF J1] by auto
    qed
  qed
  show ?thesis unfolding covered_def using 1 2 3 by simp
qed

lemma covered_init: "covered secrets secrets []"
  by (simp add: covered_def table_get_def)

subsection \<open>Outcome of the loop\<close>

text \<open>
  The loop returns only when nothing is pending, and it raises only with the pending
  declarations of a pass that resolved none of them.
\<close>

lemma resolve_loop_outcome:
  assumes "covered secrets P R"
  shows "case resolve_loop gen V S rg R P (length P) n p of
           Inr (R', p') \<Rightarrow> covered secrets [] R'
         | Inl e \<Rightarrow> (\<exists>P'. e = UnresolvedSecretsError P' \<and> stalled gen V S rg secrets P')"
proof (rule resolve_loop_rule [where J = "\<lambda>R P p. covered secrets P R"])
  show "covered secrets P R" by (rule assms)
next
  fix R P n p R' P' n'
  assume "covered secrets P R" and "resolve_pass gen V S rg P (R, [], n) = (R', P', n')"
  then show "covered secrets P' R'" by (rule covered_pass)
next
  fix R p
  assume "covered secrets [] R"
  then show "case Inr (R, p) of
           Inr (R', p') \<Rightarrow> covered secrets [] R'
         | Inl e \<Rightarrow> (\<exists>P'. e = UnresolvedSecretsError P' \<and> stalled gen V S rg secrets P')"
    by simp
next
  fix R P n p R' P' n'
  assume J: "covered secrets P R" and ne: "P \<noteq> []"
    and ps: "resolve_pass gen V S rg P (R, [], n) = (R', P', n')"
    and le: "length P \<le> length P'"
  have eq: "P' = P" by (rule pass_stalled [OF ps le])
  have "fst (snd (resolve_pass gen V S rg P (R, [], n))) = P" using ps eq by simp
  with J ne have "stalled gen V S rg secrets P" unfolding stalled_def by blast
  then show "case Inl (UnresolvedSecretsError P') of
           Inr (R', p') \<Rightarrow> covered secrets [] R'
         | Inl e \<Rightarrow> (\<exists>P'. e = UnresolvedSecretsError P' \<and> stalled gen V S rg secrets P')"
    using eq by simp
qed

lemma resolve_secrets_outcome:
  "case resolve_secrets gen secrets V statics rg of
     Inr res \<Rightarrow> covered secrets [] (applications res)
   | Inl e \<Rightarrow>
       (\<exists>P. e = UnresolvedSecretsError P
          \<and> stalled gen V (case statics of None \<Rightarrow> empty_static_secrets | Some s \<Rightarrow> s) rg
               secrets P)"
  using resolve_loop_outcome [OF covered_init, of gen V
      "case statics of None \<Rightarrow> empty_static_secrets | Some s \<Rightarrow> s" rg secrets 0 0]
  by (auto simp: resolve_secrets_def Let_def split: sum.splits)

lemma resolve_loop_stalled:
  assumes "P \<noteq> []"
    and "length P \<le> length (fst (snd (resolve_pass gen V S rg P (R, [], n))))"
  shows "resolve_loop gen V S rg R P (length P) n p = Inl (UnresolvedSecretsError P)"
proof -
  obtain R' P' n' where ps: "resolve_pass gen V S rg P (R, [], n) = (R', P', n')"
    by (cases "resolve_pass gen V S rg P (R, [], n)") auto
  with assms(2) have le: "length P \<le> length P'" by simp
  have "P' = P" by (rule pass_stalled [OF ps le])
  then show ?thesis using assms(1) ps by (subst resolve_loop.simps) simp
qed

subsection \<open>Copy rules that can never be served\<close>

lemma attempt_copy_stuck:
  assumes "copies_into K d" and "\<forall>(a, k)\<in>K. \<not> truthy (table_get R a k)"
  shows "\<not> truthy (fst (attempt gen V S rg R n d))"
  using assms
  by (auto simp: copies_into_def attempt_def resolve_secret_def Let_def truthy_def)

lemma pass_stuck:
  assumes closed: "\<forall>c\<in>set cs. key_of c \<in> K \<longrightarrow> copies_into K c"
    and empty: "\<forall>(a, k)\<in>K. \<not> truthy (table_get R a k)"
  shows "(\<forall>(a, k)\<in>K. \<not> truthy (table_get (fst (resolve_pass gen V S rg cs (R, U, n))) a k))
       \<and> (\<forall>d\<in>set cs. copies_into K d
             \<longrightarrow> d \<in> set (fst (snd (resolve_pass gen V S rg cs (R, U, n)))))"
proof (rule resolve_pass_invariant
    [where I = "\<lambda>pre st. (\<forall>(a, k)\<in>K. \<not> truthy (table_get (fst st) a k))
                  \<and> (\<forall>d\<in>set pre. copies_into K d \<longrightarrow> d \<in> set (fst (snd st)))"])
  show "(\<forall>(a, k)\<in>K. \<not> truthy (table_get (fst (R, U, n)) a k))
       \<and> (\<forall>d\<in>set []. copies_into K d \<longrightarrow> d \<in> set (fst (snd (R, U, n))))"
    using empty by simp
next
  fix pre c post and s :: "secret_table \<times> secret list \<times> nat"
  assume cs: "cs = pre @ c # post"
    and inv: "(\<forall>(a, k)\<in>K. \<not> truthy (table_get (fst s) a k))
                  \<and> (\<forall>d\<in>set pre. copies_into K d \<longrightarrow> d \<in> set (fst (snd s)))"
  obtain R1 U1 n1 where s: "s = (R1, U1, n1)" by (cases s) auto
  have K1: "\<forall>(a, k)\<in>K. \<not> truthy (table_get R1 a k)" using inv s by simp
  have U1: "\<forall>d\<in>set pre. copies_into K d \<longrightarrow> d \<in> set U1" using inv s by simp
  show "(\<forall>(a, k)\<in>K. \<not> truthy (table_get (fst (resolve_step gen V S rg c s)) a k))
        \<and> (\<forall>d\<in>set (pre @ [c]). copies_into K d
              \<longrightarrow> d \<in> set (fst (snd (resolve_step gen V S rg c s))))"
  proof (cases rule: resolve_step_cases [of gen V S rg R1 n1 c U1])
    case (resolved v)
    then have "truthy (fst (attempt gen V S rg R1 n1 c))" by (simp add: truthy_def)
    then have nc: "\<not> copies_into K c" using attempt_copy_stuck [OF _ K1] by blast
    then have "key_of c \<notin> K" using closed cs by auto
    then have "\<forall>(a, k)\<in>K. \<not> truthy (table_get (table_set R1 (application c) (key c) v) a k)"
      using K1 by (auto simp: table_get_set key_of_def)
    then show ?thesis using resolved(3) s nc U1 by auto
  next
    case pending
    then show ?thesis using s K1 U1 by auto
  qed
qed

lemma resolve_loop_stuck:
  assumes closed: "\<forall>c\<in>set secrets. key_of c \<in> K \<longrightarrow> copies_into K c"
    and sub: "subseq P secrets"
    and empty: "\<forall>(a, k)\<in>K. \<not> truthy (table_get R a k)"
    and d: "d \<in> set P" "copies_into K d"
  shows "\<exists>P'. resolve_loop gen V S rg R P (length P) n p = Inl (UnresolvedSecretsError P')
           \<and> d \<in> set P'"
proof (rule resolve_loop_rule
    [where J = "\<lambda>R P p. subseq P secrets \<and> (\<forall>(a, k)\<in>K. \<not> truthy (table_get R a k))
                  \<and> d \<in> set P"
       and Q = "\<lambda>res. \<exists>P'. res = Inl (UnresolvedSecretsError P') \<and> d \<in> set P'"])
  show "subseq P secrets \<and> (\<forall>(a, k)\<in>K. \<not> truthy (table_get R a k)) \<and> d \<in> set P"
    using sub empty d by simp
next
  fix R P n p R' P' n'
  assume J: "subseq P secrets \<and> (\<forall>(a, k)\<in>K. \<not> truthy (table_get R a k)) \<and> d \<in> set P"
    and ps: "resolve_pass gen V S rg P (R, [], n) = (R', P', n')"
  have "subseq P secrets" using J by simp
  then have "set P \<subseteq> set secrets" by (auto dest: subseq_set)
  then have cl: "\<forall>c\<in>set P. key_of c \<in> K \<longrightarrow> copies_into K c"
    using closed by (meson subsetD)
  have st: "(\<forall>(a, k)\<in>K. \<not> truthy (table_get R' a k))
       \<and> (\<forall>d\<in>set P. copies_into K d \<longrightarrow> d \<in> set P')"
    using pass_stuck [OF cl, of R gen V S rg "[]" n] J ps by simp
  have "subseq P secrets" using J by simp
  with pass_pending_subseq [OF ps] have "subseq P' secrets"
    by (rule list_emb_trans [rotated]) simp
  moreover have "d \<in> set P'" using st J d(2) by simp
  ultimately show "subseq P' secrets \<and> (\<forall>(a, k)\<in>K. \<not> truthy (table_get R' a k)) \<and> d \<in> set P'"
    using st by simp
next
  fix R p
  assume "subseq [] secrets \<and> (\<forall>(a, k)\<in>K. \<not> truthy (table_get R a k)) \<and> d \<in> set []"
  then show "\<exists>P'. Inr (R, p) = Inl (UnresolvedSecretsError P') \<and> d \<in> set P'" by simp
next
  fix R P n p R' P' n'
  assume J: "subseq P secrets \<and> (\<forall>(a, k)\<in>K. \<not> truthy (table_get R a k)) \<and> d \<in> set P"
    and ps: "resolve_pass gen V S rg P (R, [], n) = (R', P', n')"
    and le: "length P \<le> length P'"
  have "P' = P" by (rule pass_stalled [OF ps le])
  then show "\<exists>P''. Inl (UnresolvedSecretsError P') = Inl (UnresolvedSecretsError P'')
               \<and> d \<in> set P''"
    using J by simp
qed

lemma resolve_secrets_stuck:
  assumes closed: "\<forall>c\<in>set secrets. key_of c \<in> K \<longrightarrow> copies_into K c"
    and d: "d \<in> set secrets" "copies_into K d"
  shows "\<exists>P. resolve_secrets gen secrets V statics rg = Inl (UnresolvedSecretsError P)
           \<and> d \<in> set P"
proof -
  have "\<forall>(a, k)\<in>K. \<not> truthy (table_get [] a k)"
    by (simp add: table_get_def truthy_def)
  from resolve_loop_stuck [OF closed _ this d, of gen V
      "case statics of None \<Rightarrow> empty_static_secrets | Some s \<Rightarrow> s" rg 0 0]
  obtain P where "resolve_loop gen V
      (case statics of None \<Rightarrow> empty_static_secrets | Some s \<Rightarrow> s) rg [] secrets
      (length secrets) 0 0 = Inl (UnresolvedSecretsError P)" and "d \<in> set P"
    by auto
  then show ?thesis by (simp add: resolve_secrets_def)
qed

lemma distinct_keys_unique:
  assumes "distinct (map key_of secrets)" and "a \<in> set secrets" and "c \<in> set secrets"
    and "key_of c = key_of a"
  shows "c = a"
  using assms by (meson distinct_map inj_onD)

lemma copy_cycle_stuck:
  assumes dist: "distinct (map key_of secrets)"
    and a: "a \<in> set secrets" "\<not> truthy (secret_value a)"
      "copy_rules a = Some (SecretCopyRules (application b) (key b))"
    and b: "b \<in> set secrets" "\<not> truthy (secret_value b)"
      "copy_rules b = Some (SecretCopyRules (application a) (key a))"
  shows "\<exists>P. resolve_secrets gen secrets V statics rg = Inl (UnresolvedSecretsError P)
           \<and> a \<in> set P \<and> b \<in> set P"
proof -
  define K where "K = {key_of a, key_of b}"
  have ca: "copies_into K a" using a by (simp add: copies_into_def K_def key_of_def)
  have cb: "copies_into K b" using b by (simp add: copies_into_def K_def key_of_def)
  have closed: "\<forall>c\<in>set secrets. key_of c \<in> K \<longrightarrow> copies_into K c"
  proof (intro ballI impI)
    fix c assume c: "c \<in> set secrets" and "key_of c \<in> K"
    then have "key_of c = key_of a \<or> key_of c = key_of b" by (simp add: K_def)
    then have "c = a \<or> c = b"
      using distinct_keys_unique [OF dist a(1) c] distinct_keys_unique [OF dist b(1) c] by auto
    then show "copies_into K c" using ca cb by auto
  qed
  obtain Pa where Pa: "resolve_secrets gen secrets V statics rg = Inl (UnresolvedSecretsError Pa)"
      "a \<in> set Pa"
    using resolve_secrets_stuck [OF closed a(1) ca] by blast
  obtain Pb where Pb: "resolve_secrets gen secrets V statics rg = Inl (UnresolvedSecretsError Pb)"
      "b \<in> set Pb"
    using resolve_secrets_stuck [OF closed b(1) cb] by blast
  from Pa(1) Pb(1) have "Pa = Pb" by simp
  then show ?thesis using Pa Pb by auto
qed

subsection \<open>The table stays a well-formed dictionary\<close>

lemma set_update_subset: "set (AList.update k v al) \<subseteq> insert (k, v) (set al)"
  by (induction al) auto

lemma well_formed_Nil: "well_formed []"
  by (simp add: well_formed_def)

lemma well_formed_table_set:
  assumes "well_formed t"
  shows "well_formed (table_set t a k v)"
proof -
  define d0 where "d0 = (case map_of t a of None \<Rightarrow> [] | Some d \<Rightarrow> d)"
  have inner: "distinct (map fst d)" if "(b, d) \<in> set t" for b d
    using assms that by (auto simp: well_formed_def list_all_iff)
  have "distinct (map fst d0)"
  proof (cases "map_of t a")
    case None
    then show ?thesis by (simp add: d0_def)
  next
    case (Some d)
    then have "(a, d) \<in> set t" by (rule map_of_SomeD)
    then show ?thesis using Some inner by (simp add: d0_def)
  qed
  then have new: "distinct (map fst (AList.update k v d0))" by (rule distinct_update)
  have outer: "distinct (map fst (AList.update a (AList.update k v d0) t))"
    using assms by (simp add: well_formed_def distinct_update)
  have "distinct (map fst d)" if "(b, d) \<in> set (AList.update a (AList.update k v d0) t)" for b d
    using that set_update_subset [of a "AList.update k v d0" t] new inner by auto
  then show ?thesis
    using outer by (auto simp: well_formed_def list_all_iff table_set_def d0_def)
qed

lemma pass_well_formed:
  assumes "well_formed R"
  shows "well_formed (fst (resolve_pass gen V S rg cs (R, U, n)))"
proof (rule resolve_pass_invariant [where I = "\<lambda>pre st. well_formed (fst st)"])
  show "well_formed (fst (R, U, n))" using assms by simp
next
  fix pre c post and s :: "secret_table \<times> secret list \<times> nat"
  assume inv: "well_formed (fst s)"
  obtain R1 U1 n1 where s: "s = (R1, U1, n1)" by (cases s) auto
  show "well_formed (fst (resolve_step gen V S rg c s))"
  proof (cases rule: resolve_step_cases [of gen V S rg R1 n1 c U1])
    case (resolved v)
    then show ?thesis using inv s by (simp add: well_formed_table_set)
  next
    case pending
    then show ?thesis using inv s by simp
  qed
qed

lemma table_keys_member:
  assumes "distinct (map fst t)"
  shows "(a, k) \<in> set (table_keys t) \<longleftrightarrow> table_get t a k \<noteq> None"
proof -
  have "(a, k) \<in> set (table_keys t) \<longleftrightarrow> (\<exists>d. (a, d) \<in> set t \<and> k \<in> fst ` set d)"
    by (force simp: table_keys_def)
  also have "\<dots> \<longleftrightarrow> (\<exists>d. map_of t a = Some d \<and> map_of d k \<noteq> None)"
    using assms by (simp add: map_of_eq_None_iff)
  also have "\<dots> \<longleftrightarrow> table_get t a k \<noteq> None"
    by (auto simp: table_get_def split: option.splits)
  finally show ?thesis .
qed

lemma table_keys_Cons:
  "table_keys ((a, d) # t) = map (\<lambda>(k, v). (a, k)) d @ table_keys t"
  by (simp add: table_keys_def)

lemma table_keys_fst: "p \<in> set (table_keys t) \<Longrightarrow> fst p \<in> fst ` set t"
  by (force simp: table_keys_def)

lemma distinct_table_keys:
  assumes "well_formed t"
  shows "distinct (table_keys t)"
  using assms
proof (induction t)
  case Nil
  then show ?case by (simp add: table_keys_def)
next
  case (Cons e t)
  obtain a d where e: "e = (a, d)" by (cases e) auto
  have wf: "well_formed t" and a: "a \<notin> fst ` set t" and d: "distinct (map fst d)"
    using Cons.prems by (auto simp: well_formed_def e)
  have "map (\<lambda>(k, v). (a, k)) d = map (Pair a) (map fst d)"
    by (induction d) auto
  then have 1: "distinct (map (\<lambda>(k, v). (a, k)) d)"
    using d by (simp add: distinct_map inj_on_def)
  have 2: "set (map (\<lambda>(k, v). (a, k)) d) \<inter> set (table_keys t) = {}"
    using a table_keys_fst [of _ t] by fastforce
  show ?case using 1 2 Cons.IH [OF wf] by (simp add: e table_keys_Cons)
qed

lemma covered_table_keys:
  assumes "covered secrets [] R" and "well_formed R"
  shows "set (table_keys R) = key_of ` set secrets"
proof -
  have d: "distinct (map fst R)" using assms(2) by (simp add: well_formed_def)
  have "p \<in> key_of ` set secrets" if "p \<in> set (table_keys R)" for p
  proof -
    have "table_get R (fst p) (snd p) \<noteq> None"
      using that table_keys_member [OF d, of "fst p" "snd p"] by simp
    then have "(fst p, snd p) \<in> key_of ` set secrets"
      using assms(1) unfolding covered_def by blast
    then show ?thesis by simp
  qed
  moreover have "key_of c \<in> set (table_keys R)" if "c \<in> set secrets" for c
  proof -
    have "truthy (table_get R (application c) (key c))"
      using assms(1) that by (simp add: covered_def)
    then have "table_get R (application c) (key c) \<noteq> None"
      by (auto simp: truthy_def split: option.splits)
    then show ?thesis using table_keys_member [OF d] by (simp add: key_of_def)
  qed
  ultimately show ?thesis by auto
qed

subsection \<open>Progress along the ranks\<close>

lemma attempt_blocked:
  assumes "sourced V S c" and gen: "\<forall>n g other. gen n g other \<noteq> []"
    and "\<not> truthy (fst (attempt gen V S rg R n c))"
  shows "\<exists>p\<in>set (references c). \<not> truthy (table_get R (fst p) (snd p))"
proof (cases "truthy (secret_value c)")
  case True
  then show ?thesis using assms(3) by (simp add: attempt_def resolve_secret_def)
next
  case lit: False
  show ?thesis
  proof (cases "copy_rules c")
    case (Some cr)
    then have "\<not> truthy (table_get R (copy_application cr) (copy_key cr))"
      using assms(3) lit by (auto simp: attempt_def resolve_secret_def Let_def split: if_splits)
    then show ?thesis using Some by (simp add: references_def)
  next
    case None
    show ?thesis
    proof (cases "generate c")
      case no: None
      then show ?thesis
        using assms(1,3) lit None
        by (auto simp: attempt_def resolve_secret_def sourced_def split: if_splits)
    next
      case (Some g)
      show ?thesis
      proof (cases g)
        case (SecretGenerateRules t)
        then show ?thesis
          using assms(3) lit None Some gen
          by (auto simp: attempt_def resolve_secret_def truthy_def split: if_splits)
      next
        case (SourceSecretGenerateRules t k)
        then have "\<not> truthy (table_get R (application c) k)"
          using assms(3) lit None Some gen
          by (auto simp: attempt_def resolve_secret_def truthy_def Let_def split: if_splits)
        then show ?thesis using Some SourceSecretGenerateRules by (simp add: references_def)
      qed
    qed
  qed
qed

lemma pass_blocked:
  assumes src: "\<forall>c\<in>set cs. sourced V S c" and gen: "\<forall>n g other. gen n g other \<noteq> []"
  shows "\<forall>c\<in>set (fst (snd (resolve_pass gen V S rg cs (R, U, n)))).
           c \<in> set U \<or> (\<exists>p\<in>set (references c). \<not> truthy (table_get R (fst p) (snd p)))"
proof -
  have "(\<forall>a k. truthy (table_get R a k)
            \<longrightarrow> truthy (table_get (fst (resolve_pass gen V S rg cs (R, U, n))) a k))
      \<and> (\<forall>c\<in>set (fst (snd (resolve_pass gen V S rg cs (R, U, n)))).
           c \<in> set U \<or> (\<exists>p\<in>set (references c). \<not> truthy (table_get R (fst p) (snd p))))"
  proof (rule resolve_pass_invariant
      [where I = "\<lambda>pre st. (\<forall>a k. truthy (table_get R a k) \<longrightarrow> truthy (table_get (fst st) a k))
        \<and> (\<forall>c\<in>set (fst (snd st)).
             c \<in> set U \<or> (\<exists>p\<in>set (references c). \<not> truthy (table_get R (fst p) (snd p))))"])
    show "(\<forall>a k. truthy (table_get R a k) \<longrightarrow> truthy (table_get (fst (R, U, n)) a k))
        \<and> (\<forall>c\<in>set (fst (snd (R, U, n))).
             c \<in> set U \<or> (\<exists>p\<in>set (references c). \<not> truthy (table_get R (fst p) (snd p))))"
      by simp
  next
    fix pre c post and s :: "secret_table \<times> secret list \<times> nat"
    assume cs: "cs = pre @ c # post"
      and inv: "(\<forall>a k. truthy (table_get R a k) \<longrightarrow> truthy (table_get (fst s) a k))
        \<and> (\<forall>c\<in>set (fst (snd s)).
             c \<in> set U \<or> (\<exists>p\<in>set (references c). \<not> truthy (table_get R (fst p) (snd p))))"
    obtain R1 U1 n1 where s: "s = (R1, U1, n1)" by (cases s) auto
    have mono: "truthy (table_get R1 a k)" if "truthy (table_get R a k)" for a k
      using inv s that by simp
    have old: "c' \<in> set U \<or> (\<exists>p\<in>set (references c'). \<not> truthy (table_get R (fst p) (snd p)))"
      if "c' \<in> set U1" for c'
      using inv s that by simp
    have mono': "truthy (table_get (fst (resolve_step gen V S rg c s)) a k)"
      if "truthy (table_get R a k)" for a k
      using step_monotone [of s a k gen V S rg c] mono [OF that] s by simp
    have pend: "c' \<in> set U \<or> (\<exists>p\<in>set (references c'). \<not> truthy (table_get R (fst p) (snd p)))"
      if "c' \<in> set (fst (snd (resolve_step gen V S rg c s)))" for c'
    proof (cases rule: resolve_step_cases [of gen V S rg R1 n1 c U1])
      case (resolved v)
      then show ?thesis using that s old by simp
    next
      case pending
      have "sourced V S c" using src cs by simp
      from attempt_blocked [OF this gen pending(1)]
      obtain p where p: "p \<in> set (references c)" "\<not> truthy (table_get R1 (fst p) (snd p))"
        by blast
      then have "\<not> truthy (table_get R (fst p) (snd p))" using mono by blast
      then have "\<exists>p\<in>set (references c). \<not> truthy (table_get R (fst p) (snd p))"
        using p(1) by blast
      then show ?thesis using that s old pending(2) by auto
    qed
    show "(\<forall>a k. truthy (table_get R a k)
              \<longrightarrow> truthy (table_get (fst (resolve_step gen V S rg c s)) a k))
        \<and> (\<forall>c'\<in>set (fst (snd (resolve_step gen V S rg c s))).
             c' \<in> set U \<or> (\<exists>p\<in>set (references c'). \<not> truthy (table_get R (fst p) (snd p))))"
      using mono' pend by blast
  qed
  then show ?thesis by blast
qed

lemma ranked_reference:
  assumes "ranked rk secrets" and "c \<in> set secrets" and "p \<in> set (references c)"
  shows "\<exists>c'\<in>set secrets. key_of c' = p \<and> rk c' < rk c"
  using assms by (auto simp: ranked_def list_all_iff list_ex_iff)

text \<open>A pending declaration that a pass leaves pending waits for a pending one of lower rank.\<close>

lemma pass_blocked_by_pending:
  assumes cov: "covered secrets P R" and rk: "ranked rk secrets"
    and src: "\<forall>c\<in>set secrets. sourced V S c" and gen: "\<forall>n g other. gen n g other \<noteq> []"
    and ps: "resolve_pass gen V S rg P (R, [], n) = (R', P', n')"
    and c: "c \<in> set P'"
  shows "\<exists>c'\<in>set P. rk c' < rk c"
proof -
  have sub: "set P \<subseteq> set secrets" using cov by (auto simp: covered_def dest: subseq_set)
  then have srcP: "\<forall>c\<in>set P. sourced V S c" using src by (meson subsetD)
  have cP: "c \<in> set P" using pass_pending_subseq [OF ps] c by (rule subseq_set)
  from pass_blocked [OF srcP gen, where rg = rg and R = R and U = "[]" and n = n] ps c
  obtain p where p: "p \<in> set (references c)" "\<not> truthy (table_get R (fst p) (snd p))"
    by auto
  from ranked_reference [OF rk _ p(1)] cP sub
  obtain c' where c': "c' \<in> set secrets" "key_of c' = p" "rk c' < rk c" by blast
  have "c' \<in> set P \<or> truthy (table_get R (application c') (key c'))"
    using cov c'(1) by (simp add: covered_def)
  moreover have "\<not> truthy (table_get R (application c') (key c'))"
    using p(2) c'(2) by (auto simp: key_of_def)
  ultimately show ?thesis using c'(3) by blast
qed

lemma least_rank:
  assumes "P \<noteq> []"
  shows "\<exists>c\<in>set P. \<forall>c'\<in>set P. rk c \<le> (rk c' :: nat)"
proof -
  have fin: "finite (rk ` set P)" and ne: "rk ` set P \<noteq> {}" using assms by simp_all
  from Min_in [OF fin ne] obtain c where c: "c \<in> set P" "rk c = Min (rk ` set P)" by auto
  have "rk c \<le> rk c'" if "c' \<in> set P" for c'
    using Min_le [OF fin, of "rk c'"] that c(2) by simp
  then show ?thesis using c(1) by blast
qed

lemma resolve_loop_converges:
  assumes rk: "ranked rk secrets" and bound: "\<forall>c\<in>set secrets. rk c < N"
    and src: "\<forall>c\<in>set secrets. sourced V S c"
    and gen: "\<forall>n g other. gen n g other \<noteq> []"
    and cov: "covered secrets P R" and wf: "well_formed R"
    and low: "\<forall>c\<in>set P. p \<le> rk c" and pN: "p \<le> N"
  shows "\<exists>R' p'. resolve_loop gen V S rg R P (length P) n p = Inr (R', p') \<and> p' \<le> N
           \<and> covered secrets [] R' \<and> well_formed R'"
proof (rule resolve_loop_rule
    [where J = "\<lambda>R P p. covered secrets P R \<and> well_formed R \<and> (\<forall>c\<in>set P. p \<le> rk c) \<and> p \<le> N"
       and Q = "\<lambda>res. \<exists>R' p'. res = Inr (R', p') \<and> p' \<le> N \<and> covered secrets [] R'
                  \<and> well_formed R'"])
  show "covered secrets P R \<and> well_formed R \<and> (\<forall>c\<in>set P. p \<le> rk c) \<and> p \<le> N"
    using cov wf low pN by simp
next
  fix R P n p R' P' n'
  assume J: "covered secrets P R \<and> well_formed R \<and> (\<forall>c\<in>set P. p \<le> rk c) \<and> p \<le> N"
    and ne: "P \<noteq> []"
    and ps: "resolve_pass gen V S rg P (R, [], n) = (R', P', n')"
  have cov': "covered secrets P' R'" using J ps covered_pass by blast
  have wf': "well_formed R'"
    using pass_well_formed [of R gen V S rg P "[]" n] J ps by simp
  have low': "Suc p \<le> rk c" if "c \<in> set P'" for c
  proof -
    from pass_blocked_by_pending [OF _ rk src gen ps that] J
    obtain c' where "c' \<in> set P" "rk c' < rk c" by blast
    then show ?thesis using J by fastforce
  qed
  obtain c0 where c0: "c0 \<in> set P" using ne by (cases P) auto
  then have "c0 \<in> set secrets" using J by (auto simp: covered_def dest: subseq_set)
  then have "p < N" using J c0 bound by fastforce
  then show "covered secrets P' R' \<and> well_formed R' \<and> (\<forall>c\<in>set P'. Suc p \<le> rk c) \<and> Suc p \<le> N"
    using cov' wf' low' by simp
next
  fix R p
  assume "covered secrets [] R \<and> well_formed R \<and> (\<forall>c\<in>set []. p \<le> rk c) \<and> p \<le> N"
  then show "\<exists>R' p'. Inr (R, p) = Inr (R', p') \<and> p' \<le> N \<and> covered secrets [] R'
                  \<and> well_formed R'"
    by simp
next
  fix R P n p R' P' n'
  assume J: "covered secrets P R \<and> well_formed R \<and> (\<forall>c\<in>set P. p \<le> rk c) \<and> p \<le> N"
    and ne: "P \<noteq> []"
    and ps: "resolve_pass gen V S rg P (R, [], n) = (R', P', n')"
    and le: "length P \<le> length P'"
  have eq: "P' = P" by (rule pass_stalled [OF ps le])
  from least_rank [OF ne, of rk] obtain c where c: "c \<in> set P" "\<forall>c'\<in>set P. rk c \<le> rk c'"
    by blast
  from pass_blocked_by_pending [OF _ rk src gen ps] J c(1) eq
  obtain c' where "c' \<in> set P" "rk c' < rk c" by blast
  then have False using c(2) by fastforce
  then show "\<exists>R'' p'. Inl (UnresolvedSecretsError P') = Inr (R'', p') \<and> p' \<le> N
               \<and> covered secrets [] R'' \<and> well_formed R''"
    by simp
qed

subsection \<open>Copies stay equal to their sources\<close>

lemma subseq_keeps_distinct: "subseq xs ys \<Longrightarrow> distinct ys \<Longrightarrow> distinct xs"
  by (induction rule: list_emb.induct) (auto dest: subseq_set)

lemma attempt_copy_value:
  assumes "\<not> truthy (secret_value c)" and "copy_rules c = Some cr"
    and "fst (attempt gen V S rg R n c) = Some v"
  shows "table_get R (copy_application cr) (copy_key cr) = Some v"
  using assms
  by (auto simp: attempt_def resolve_secret_def Let_def split: if_splits)

lemma faithful_table_set:
  assumes "faithful R c'" and "key_of c' \<noteq> (a, k)" and "table_get R a k = None"
  shows "faithful (table_set R a k v) c'"
proof (cases "copy_rules c'")
  case None
  then show ?thesis by (simp add: faithful_def)
next
  case (Some cr)
  show ?thesis
  proof (cases "truthy (secret_value c')")
    case True
    then show ?thesis using Some by (simp add: faithful_def)
  next
    case False
    then have t: "truthy (table_get R (application c') (key c'))"
      and e: "table_get R (application c') (key c')
                = table_get R (copy_application cr) (copy_key cr)"
      using assms(1) Some by (auto simp: faithful_def)
    have 1: "table_get (table_set R a k v) (application c') (key c')
               = table_get R (application c') (key c')"
      using assms(2) by (auto simp: table_get_set key_of_def)
    have "table_get R (copy_application cr) (copy_key cr) \<noteq> None"
      using t e by (auto simp: truthy_def split: option.splits)
    then have "(copy_application cr, copy_key cr) \<noteq> (a, k)" using assms(3) by auto
    then have 2: "table_get (table_set R a k v) (copy_application cr) (copy_key cr)
               = table_get R (copy_application cr) (copy_key cr)"
      by (auto simp: table_get_set)
    show ?thesis using Some t e 1 2 by (simp add: faithful_def)
  qed
qed

text \<open>Resolving a pending declaration of a set with unique pairs keeps the state settled.\<close>

lemma settled_resolve:
  assumes dist: "distinct (map key_of secrets)"
    and st: "settled secrets (insert c Pend) R"
    and c: "c \<in> set secrets" "c \<notin> Pend"
    and v: "fst (attempt gen V S rg R n c) = Some v" "v \<noteq> []"
  shows "settled secrets Pend (table_set R (application c) (key c) v)"
proof -
  have absent: "table_get R (application c) (key c) = None"
  proof (rule ccontr)
    assume "table_get R (application c) (key c) \<noteq> None"
    then obtain c' where c': "c' \<in> set secrets" "key_of c' = (application c, key c)"
        "c' \<notin> insert c Pend"
      using st unfolding settled_def by blast
    then have "c' = c"
      using distinct_keys_unique [OF dist c(1) c'(1)] by (simp add: key_of_def)
    then show False using c'(3) by simp
  qed
  have dom: "\<exists>c'\<in>set secrets. key_of c' = (a, k) \<and> c' \<notin> Pend"
    if "table_get (table_set R (application c) (key c) v) a k \<noteq> None" for a k
  proof (cases "(a, k) = (application c, key c)")
    case True
    then show ?thesis using c by (auto simp: key_of_def)
  next
    case False
    then have "table_get R a k \<noteq> None" using that by (auto simp: table_get_set)
    then obtain c' where "c' \<in> set secrets" "key_of c' = (a, k)" "c' \<notin> insert c Pend"
      using st unfolding settled_def by blast
    then show ?thesis by auto
  qed
  have fid: "faithful (table_set R (application c) (key c) v) c'"
    if c': "c' \<in> set secrets" "c' \<notin> Pend" for c'
  proof (cases "c' = c")
    case False
    then have f: "faithful R c'" using st c' unfolding settled_def by simp
    have "key_of c' \<noteq> key_of c"
      using distinct_keys_unique [OF dist c(1) c'(1)] False by auto
    then have "key_of c' \<noteq> (application c, key c)" by (simp add: key_of_def)
    from faithful_table_set [OF f this absent] show ?thesis .
  next
    case True
    show ?thesis
    proof (cases "copy_rules c")
      case None
      then show ?thesis using True by (simp add: faithful_def)
    next
      case (Some cr)
      show ?thesis
      proof (cases "truthy (secret_value c)")
        case True
        then show ?thesis using Some \<open>c' = c\<close> by (simp add: faithful_def)
      next
        case False
        from attempt_copy_value [OF False Some v(1)]
        have src: "table_get R (copy_application cr) (copy_key cr) = Some v" .
        then have "(copy_application cr, copy_key cr) \<noteq> (application c, key c)"
          using absent by auto
        then have "table_get (table_set R (application c) (key c) v)
                     (copy_application cr) (copy_key cr) = Some v"
          using src by (auto simp: table_get_set)
        moreover have "table_get (table_set R (application c) (key c) v)
                     (application c) (key c) = Some v"
          by (simp add: table_get_set)
        ultimately show ?thesis
          using Some v(2) \<open>c' = c\<close> by (simp add: faithful_def truthy_def)
      qed
    qed
  qed
  show ?thesis unfolding settled_def using dom fid by blast
qed

lemma pass_settled:
  assumes dist: "distinct (map key_of secrets)"
    and sub: "set cs \<subseteq> set secrets" and dcs: "distinct cs"
    and st: "settled secrets (set cs) R"
  shows "settled secrets (set (fst (snd (resolve_pass gen V S rg cs (R, [], n)))))
           (fst (resolve_pass gen V S rg cs (R, [], n)))"
proof -
  have "set (fst (snd (resolve_pass gen V S rg cs (R, [], n)))) \<subseteq> set cs
      \<and> settled secrets
          (set (fst (snd (resolve_pass gen V S rg cs (R, [], n)))) \<union> (set cs - set cs))
          (fst (resolve_pass gen V S rg cs (R, [], n)))"
  proof (rule resolve_pass_invariant
      [where I = "\<lambda>pre s. set (fst (snd s)) \<subseteq> set pre
          \<and> settled secrets (set (fst (snd s)) \<union> (set cs - set pre)) (fst s)"])
    show "set (fst (snd (R, [], n))) \<subseteq> set []
          \<and> settled secrets (set (fst (snd (R, [], n))) \<union> (set cs - set [])) (fst (R, [], n))"
      using st by simp
  next
    fix pre c post and s :: "secret_table \<times> secret list \<times> nat"
    assume cs: "cs = pre @ c # post"
      and inv: "set (fst (snd s)) \<subseteq> set pre
          \<and> settled secrets (set (fst (snd s)) \<union> (set cs - set pre)) (fst s)"
    obtain R1 U1 n1 where s: "s = (R1, U1, n1)" by (cases s) auto
    have cpre: "c \<notin> set pre" and cpost: "c \<notin> set post" and disj: "set pre \<inter> set post = {}"
      using dcs cs by auto
    have rest: "set cs - set pre = insert c (set post)"
      using cs cpre disj by auto
    have rest': "set cs - set (pre @ [c]) = set post"
      using cs cpost disj by auto
    have U1: "set U1 \<subseteq> set pre" using inv s by simp
    have st1: "settled secrets (insert c (set U1 \<union> set post)) R1"
      using inv s rest by simp
    have cin: "c \<in> set secrets" using sub cs by simp
    have cout: "c \<notin> set U1 \<union> set post" using U1 cpre cpost by auto
    show "set (fst (snd (resolve_step gen V S rg c s))) \<subseteq> set (pre @ [c])
          \<and> settled secrets
              (set (fst (snd (resolve_step gen V S rg c s))) \<union> (set cs - set (pre @ [c])))
              (fst (resolve_step gen V S rg c s))"
    proof (cases rule: resolve_step_cases [of gen V S rg R1 n1 c U1])
      case (resolved v)
      from settled_resolve [OF dist st1 cin cout resolved(1,2)]
      have "settled secrets (set U1 \<union> set post) (table_set R1 (application c) (key c) v)" .
      then show ?thesis using resolved(3) s U1 rest' by auto
    next
      case pending
      have "set (U1 @ [c]) \<union> set post = insert c (set U1 \<union> set post)" by auto
      then show ?thesis using pending(2) s U1 st1 rest' by auto
    qed
  qed
  then show ?thesis by simp
qed

lemma settled_init: "settled secrets (set secrets) []"
  by (simp add: settled_def table_get_def)

lemma resolve_loop_faithful:
  assumes dist: "distinct (map key_of secrets)"
    and P: "distinct P" "set P \<subseteq> set secrets" "settled secrets (set P) R"
    and res: "resolve_loop gen V S rg R P (length P) n p = Inr (R', p')"
  shows "\<forall>c\<in>set secrets. faithful R' c"
proof -
  have "case resolve_loop gen V S rg R P (length P) n p of
          Inr (R', p') \<Rightarrow> \<forall>c\<in>set secrets. faithful R' c
        | Inl e \<Rightarrow> True"
  proof (rule resolve_loop_rule
      [where J = "\<lambda>R P p. distinct P \<and> set P \<subseteq> set secrets \<and> settled secrets (set P) R"])
    show "distinct P \<and> set P \<subseteq> set secrets \<and> settled secrets (set P) R" using P by simp
  next
    fix R P n p R' P' n'
    assume J: "distinct P \<and> set P \<subseteq> set secrets \<and> settled secrets (set P) R"
      and ps: "resolve_pass gen V S rg P (R, [], n) = (R', P', n')"
    have sub: "subseq P' P" by (rule pass_pending_subseq [OF ps])
    have 1: "distinct P'" using sub J by (simp add: subseq_keeps_distinct)
    have 2: "set P' \<subseteq> set secrets" using sub J by (auto dest: subseq_set)
    have 3: "settled secrets (set P') R'"
      using pass_settled [OF dist, of P R gen V S rg n] J ps by simp
    show "distinct P' \<and> set P' \<subseteq> set secrets \<and> settled secrets (set P') R'"
      using 1 2 3 by simp
  next
    fix R p
    assume "distinct [] \<and> set [] \<subseteq> set secrets \<and> settled secrets (set []) R"
    then show "case Inr (R, p) of
          Inr (R', p') \<Rightarrow> \<forall>c\<in>set secrets. faithful R' c
        | Inl e \<Rightarrow> True"
      by (simp add: settled_def)
  next
    fix P' :: "secret list"
    show "case Inl (UnresolvedSecretsError P') of
          Inr (R', p') \<Rightarrow> \<forall>c\<in>set secrets. faithful R' c
        | Inl e \<Rightarrow> True"
      by simp
  qed
  then show ?thesis using res by simp
qed

section \<open>The loops of the auditor\<close>

lemma audit_step_eq:
  "audit_step a (k, s) (V, ms, mm) =
     (case table_get V a k of
        None \<Rightarrow> (V, ms @ [(a, k)], mm)
      | Some cur \<Rightarrow>
          (AList.map_entry a (AList.delete k) V, ms,
           if s \<noteq> cur then mm @ [(a, k)] else mm))"
  by (simp add: audit_step_def table_get_def split: option.splits)

lemma map_entry_cong:
  assumes "\<And>d. map_of V a = Some d \<Longrightarrow> f d = g d"
  shows "AList.map_entry a f V = AList.map_entry a g V"
  using assms by (induction V) auto

lemma map_entry_comp:
  "AList.map_entry a f (AList.map_entry a g V) = AList.map_entry a (\<lambda>d. f (g d)) V"
  by (induction V) auto

lemma map_entry_distinct:
  assumes "distinct (map fst V)"
  shows "AList.map_entry a f V = map (\<lambda>(a', d). (a', if a' = a then f d else d)) V"
  using assms
proof (induction V)
  case Nil
  then show ?case by simp
next
  case (Cons p V)
  have "map (\<lambda>(a', d). (a', if a' = a then f d else d)) V = V" if "a \<notin> fst ` set V"
    using that by (induction V) auto
  then show ?case using Cons by (cases p) (auto simp: rev_image_eqI)
qed

lemma table_get_map_entry_delete:
  "table_get (AList.map_entry a (AList.delete k) V) a' k' =
     (if a' = a \<and> k' = k then None else table_get V a' k')"
  by (auto simp: table_get_def map_of_map_entry delete_conv' split: option.splits)

lemma table_get_map_entry_other:
  "a' \<noteq> a \<Longrightarrow> table_get (AList.map_entry a f V) a' k = table_get V a' k"
  by (simp add: table_get_def map_of_map_entry)

lemma table_get_absent_key:
  assumes "table_get V a k = None" and "map_of V a = Some d"
  shows "k \<notin> fst ` set d"
  using assms by (simp add: table_get_def map_of_eq_None_iff)

lemma table_get_Cons:
  "table_get ((a, d) # t) a' k = (if a' = a then map_of d k else table_get t a' k)"
  by (simp add: table_get_def)

lemma table_get_no_app:
  assumes "a \<notin> fst ` set t"
  shows "table_get t a k = None"
proof -
  have "map_of t a = None" using assms by (simp add: map_of_eq_None_iff)
  then show ?thesis by (simp add: table_get_def)
qed

lemma table_keys_filter:
  "table_keys (map (\<lambda>(a, d). (a, filter (\<lambda>e. Q a (fst e)) d)) V)
     = [p \<leftarrow> table_keys V. Q (fst p) (snd p)]"
proof (induction V)
  case Nil
  then show ?case by (simp add: table_keys_def)
next
  case (Cons e V)
  obtain a d where e: "e = (a, d)" by (cases e) auto
  have "map (\<lambda>(k, v). (a, k)) (filter (\<lambda>e. Q a (fst e)) d)
          = [p \<leftarrow> map (\<lambda>(k, v). (a, k)) d. Q (fst p) (snd p)]"
    by (induction d) auto
  then show ?case using Cons by (simp add: e table_keys_Cons)
qed

lemma filter_map_keys:
  assumes "\<And>e. e \<in> set vals \<Longrightarrow> P e = Q (a, fst e)"
  shows "map (Pair a) (map fst (filter P vals)) = filter Q (map (\<lambda>(k, v). (a, k)) vals)"
  using assms by (induction vals) auto

text \<open>
  The inner loop over the keys of one application: the keys found are removed from the
  entry of the application in the snapshot, the keys not found are appended to
  \<open>missing\<close> and those found with another value to \<open>mismatch\<close>, in the order of
  the keys.
\<close>

lemma audit_values:
  assumes "distinct (map fst vals)"
  shows "fold (audit_step a) vals (V, ms, mm) =
     (AList.map_entry a (filter (\<lambda>e. fst e \<notin> fst ` set vals)) V,
      ms @ map (Pair a) [k \<leftarrow> map fst vals. table_get V a k = None],
      mm @ map (Pair a) (map fst [e \<leftarrow> vals.
              case table_get V a (fst e) of None \<Rightarrow> False | Some cur \<Rightarrow> snd e \<noteq> cur]))"
  using assms
proof (induction vals arbitrary: V ms mm)
  case Nil
  have "AList.map_entry a (\<lambda>d. d) V = V" by (induction V) auto
  then show ?case by simp
next
  case (Cons e vals)
  obtain k s where e: "e = (k, s)" by (cases e) auto
  have dv: "distinct (map fst vals)" and kv: "k \<notin> fst ` set vals"
    using Cons.prems e by auto
  show ?case
  proof (cases "table_get V a k")
    case None
    have V: "AList.map_entry a (filter (\<lambda>e. fst e \<notin> fst ` set vals)) V
           = AList.map_entry a (filter (\<lambda>e. fst e \<notin> fst ` set ((k, s) # vals))) V"
    proof (rule map_entry_cong)
      fix d assume "map_of V a = Some d"
      from table_get_absent_key [OF None this]
      show "filter (\<lambda>e. fst e \<notin> fst ` set vals) d
              = filter (\<lambda>e. fst e \<notin> fst ` set ((k, s) # vals)) d"
        by (intro filter_cong) auto
    qed
    show ?thesis
      using Cons.IH [OF dv, of V "ms @ [(a, k)]" mm] None V
      by (simp add: e audit_step_eq)
  next
    case (Some cur)
    define V2 where "V2 = AList.map_entry a (AList.delete k) V"
    define mm2 where "mm2 = (if s \<noteq> cur then mm @ [(a, k)] else mm)"
    have same: "table_get V2 a k' = table_get V a k'" if "k' \<in> fst ` set vals" for k'
      using that kv by (auto simp: V2_def table_get_map_entry_delete)
    have V: "AList.map_entry a (filter (\<lambda>e. fst e \<notin> fst ` set vals)) V2
           = AList.map_entry a (filter (\<lambda>e. fst e \<notin> fst ` set ((k, s) # vals))) V"
      unfolding V2_def map_entry_comp
      by (rule map_entry_cong) (auto simp: AList.delete_eq intro!: filter_cong)
    have ms: "[k' \<leftarrow> map fst vals. table_get V2 a k' = None]
            = [k' \<leftarrow> map fst vals. table_get V a k' = None]"
      by (rule filter_cong) (auto simp: same)
    have mm: "[e \<leftarrow> vals. case table_get V2 a (fst e) of None \<Rightarrow> False | Some cur \<Rightarrow> snd e \<noteq> cur]
            = [e \<leftarrow> vals. case table_get V a (fst e) of None \<Rightarrow> False | Some cur \<Rightarrow> snd e \<noteq> cur]"
      by (rule filter_cong) (auto simp: same)
    have step: "audit_step a (k, s) (V, ms, mm) = (V2, ms, mm2)"
      using Some by (simp add: audit_step_eq V2_def mm2_def)
    have "fold (audit_step a) (e # vals) (V, ms, mm) = fold (audit_step a) vals (V2, ms, mm2)"
      by (simp add: e step)
    also have "\<dots> = (AList.map_entry a (filter (\<lambda>e. fst e \<notin> fst ` set ((k, s) # vals))) V,
        ms @ map (Pair a) [k' \<leftarrow> map fst vals. table_get V a k' = None],
        mm2 @ map (Pair a) (map fst [e \<leftarrow> vals.
              case table_get V a (fst e) of None \<Rightarrow> False | Some cur \<Rightarrow> snd e \<noteq> cur]))"
      using Cons.IH [OF dv, of V2 ms mm2] by (simp only: V ms mm)
    finally show ?thesis using Some by (simp add: e mm2_def)
  qed
qed

text \<open>The outer loop over the applications of the resolved set.\<close>

lemma audit_apps:
  assumes "well_formed es" and "distinct (map fst V)"
  shows "fold (\<lambda>(a, vals) st. fold (audit_step a) vals st) es (V, ms, mm) =
     (map (\<lambda>(a, d). (a, filter (\<lambda>e. table_get es a (fst e) = None) d)) V,
      ms @ [p \<leftarrow> table_keys es. table_get V (fst p) (snd p) = None],
      mm @ [p \<leftarrow> table_keys es.
              case table_get V (fst p) (snd p) of
                None \<Rightarrow> False
              | Some cur \<Rightarrow> table_get es (fst p) (snd p) \<noteq> Some cur])"
  using assms
proof (induction es arbitrary: V ms mm)
  case Nil
  have "map (\<lambda>(a, d). (a, filter (\<lambda>e. table_get [] a (fst e) = None) d)) V = V"
    by (induction V) (auto simp: table_get_def)
  then show ?case by (simp add: table_keys_def)
next
  case (Cons e es)
  obtain a vals where e: "e = (a, vals)" by (cases e) auto
  have wf: "well_formed es" and a: "a \<notin> fst ` set es" and dv: "distinct (map fst vals)"
    using Cons.prems(1) by (auto simp: well_formed_def e)
  define V2 where "V2 = AList.map_entry a (filter (\<lambda>e. fst e \<notin> fst ` set vals)) V"
  define ms2 where "ms2 = ms @ map (Pair a) [k \<leftarrow> map fst vals. table_get V a k = None]"
  define mm2 where "mm2 = mm @ map (Pair a) (map fst [e \<leftarrow> vals.
              case table_get V a (fst e) of None \<Rightarrow> False | Some cur \<Rightarrow> snd e \<noteq> cur])"
  have dV2: "distinct (map fst V2)"
    using Cons.prems(2) by (simp add: V2_def distinct_map_entry)
  have inner: "fold (audit_step a) vals (V, ms, mm) = (V2, ms2, mm2)"
    by (simp add: audit_values [OF dv] V2_def ms2_def mm2_def)
  have other: "table_get V2 (fst p) (snd p) = table_get V (fst p) (snd p)"
    if "p \<in> set (table_keys es)" for p
  proof -
    have "fst p \<noteq> a" using table_keys_fst [OF that] a by auto
    then show ?thesis by (simp add: V2_def table_get_map_entry_other)
  qed
  have es_other: "table_get ((a, vals) # es) (fst p) (snd p) = table_get es (fst p) (snd p)"
    if "p \<in> set (table_keys es)" for p
  proof -
    have "fst p \<noteq> a" using table_keys_fst [OF that] a by auto
    then show ?thesis by (simp add: table_get_Cons)
  qed
  have Vpart: "map (\<lambda>(a', d). (a', filter (\<lambda>e. table_get es a' (fst e) = None) d)) V2
      = map (\<lambda>(a', d). (a', filter (\<lambda>e. table_get ((a, vals) # es) a' (fst e) = None) d)) V"
  proof -
    have "(case case x of (a', d) \<Rightarrow> (a', if a' = a then filter (\<lambda>e. fst e \<notin> fst ` set vals) d else d) of
            (a', d) \<Rightarrow> (a', filter (\<lambda>e. table_get es a' (fst e) = None) d))
        = (case x of (a', d) \<Rightarrow>
            (a', filter (\<lambda>e. table_get ((a, vals) # es) a' (fst e) = None) d))"
      for x :: "string \<times> (string \<times> secret_str) list"
      using a by (cases x) (auto simp: table_get_Cons table_get_no_app map_of_eq_None_iff
            intro!: filter_cong)
    then show ?thesis
      unfolding V2_def map_entry_distinct [OF Cons.prems(2)] by (simp add: comp_def)
  qed
  have ms_head: "map (Pair a) [k \<leftarrow> map fst vals. table_get V a k = None]
      = [p \<leftarrow> map (\<lambda>(k, v). (a, k)) vals. table_get V (fst p) (snd p) = None]"
    by (induction vals) auto
  have ms_tail: "[p \<leftarrow> table_keys es. table_get V2 (fst p) (snd p) = None]
      = [p \<leftarrow> table_keys es. table_get V (fst p) (snd p) = None]"
    by (rule filter_cong) (auto simp: other)
  have mm_head: "map (Pair a) (map fst [e \<leftarrow> vals.
              case table_get V a (fst e) of None \<Rightarrow> False | Some cur \<Rightarrow> snd e \<noteq> cur])
      = [p \<leftarrow> map (\<lambda>(k, v). (a, k)) vals.
              case table_get V (fst p) (snd p) of
                None \<Rightarrow> False
              | Some cur \<Rightarrow> table_get ((a, vals) # es) (fst p) (snd p) \<noteq> Some cur]"
  proof (rule filter_map_keys)
    fix x assume "x \<in> set vals"
    then have "map_of vals (fst x) = Some (snd x)" using dv by simp
    then show "(case table_get V a (fst x) of None \<Rightarrow> False | Some cur \<Rightarrow> snd x \<noteq> cur)
        = (case table_get V (fst (a, fst x)) (snd (a, fst x)) of
             None \<Rightarrow> False
           | Some cur \<Rightarrow>
               table_get ((a, vals) # es) (fst (a, fst x)) (snd (a, fst x)) \<noteq> Some cur)"
      by (simp add: table_get_Cons split: option.splits)
  qed
  have mm_tail: "[p \<leftarrow> table_keys es.
              case table_get V2 (fst p) (snd p) of
                None \<Rightarrow> False
              | Some cur \<Rightarrow> table_get es (fst p) (snd p) \<noteq> Some cur]
      = [p \<leftarrow> table_keys es.
              case table_get V (fst p) (snd p) of
                None \<Rightarrow> False
              | Some cur \<Rightarrow> table_get ((a, vals) # es) (fst p) (snd p) \<noteq> Some cur]"
    by (rule filter_cong) (auto simp: other es_other split: option.splits)
  have "fold (\<lambda>(a, vals) st. fold (audit_step a) vals st) (e # es) (V, ms, mm)
      = fold (\<lambda>(a, vals) st. fold (audit_step a) vals st) es (V2, ms2, mm2)"
    by (simp add: e inner)
  also have "\<dots> = (map (\<lambda>(a, d). (a, filter (\<lambda>e. table_get es a (fst e) = None) d)) V2,
      ms2 @ [p \<leftarrow> table_keys es. table_get V2 (fst p) (snd p) = None],
      mm2 @ [p \<leftarrow> table_keys es.
              case table_get V2 (fst p) (snd p) of
                None \<Rightarrow> False
              | Some cur \<Rightarrow> table_get es (fst p) (snd p) \<noteq> Some cur])"
    by (rule Cons.IH [OF wf dV2])
  finally show ?case
    by (simp only: Vpart ms_tail mm_tail ms2_def mm2_def ms_head mm_head e table_keys_Cons
          filter_append append_assoc)
qed

lemma audit_compare_filters:
  assumes R: "well_formed T" and V: "distinct (map fst vault_secrets)"
    and T: "applications resolved = T"
  shows "audit_compare resolved vault_secrets =
     ([p \<leftarrow> table_keys T. classification T vault_secrets p = Missing],
      [p \<leftarrow> table_keys T. classification T vault_secrets p = Mismatch],
      [p \<leftarrow> table_keys vault_secrets. classification T vault_secrets p = Unknown])"
proof -
  have dT: "distinct (map fst T)" using R by (simp add: well_formed_def)
  have present: "table_get T (fst p) (snd p) \<noteq> None" if "p \<in> set (table_keys T)" for p
    using that table_keys_member [OF dT, of "fst p" "snd p"] by simp
  have 1: "[p \<leftarrow> table_keys T. table_get vault_secrets (fst p) (snd p) = None]
         = [p \<leftarrow> table_keys T. classification T vault_secrets p = Missing]"
  proof (rule filter_cong)
    fix p assume "p \<in> set (table_keys T)"
    from present [OF this]
    show "(table_get vault_secrets (fst p) (snd p) = None)
            = (classification T vault_secrets p = Missing)"
      by (auto simp: classification_def split: option.splits)
  qed simp
  have 2: "[p \<leftarrow> table_keys T.
              case table_get vault_secrets (fst p) (snd p) of
                None \<Rightarrow> False
              | Some cur \<Rightarrow> table_get T (fst p) (snd p) \<noteq> Some cur]
         = [p \<leftarrow> table_keys T. classification T vault_secrets p = Mismatch]"
  proof (rule filter_cong)
    fix p assume "p \<in> set (table_keys T)"
    from present [OF this]
    show "(case table_get vault_secrets (fst p) (snd p) of
             None \<Rightarrow> False
           | Some cur \<Rightarrow> table_get T (fst p) (snd p) \<noteq> Some cur)
            = (classification T vault_secrets p = Mismatch)"
      by (auto simp: classification_def split: option.splits)
  qed simp
  have 3: "table_keys (map (\<lambda>(a, d). (a, filter (\<lambda>e. table_get T a (fst e) = None) d))
                          vault_secrets)
         = [p \<leftarrow> table_keys vault_secrets. classification T vault_secrets p = Unknown]"
  proof -
    have "table_keys (map (\<lambda>(a, d). (a, filter (\<lambda>e. table_get T a (fst e) = None) d))
                          vault_secrets)
         = [p \<leftarrow> table_keys vault_secrets. table_get T (fst p) (snd p) = None]"
      by (rule table_keys_filter [where Q = "\<lambda>a k. table_get T a k = None"])
    also have "\<dots> = [p \<leftarrow> table_keys vault_secrets. classification T vault_secrets p = Unknown]"
      by (rule filter_cong) (auto simp: classification_def split: option.splits)
    finally show ?thesis .
  qed
  have unk: "concat (map (\<lambda>(a, lv). map (\<lambda>(k, v). (a, k)) lv) W) = table_keys W"
    for W :: secret_table
    by (simp add: table_keys_def)
  have "audit_compare resolved vault_secrets =
      (case fold (\<lambda>(app_name, vals) st. fold (audit_step app_name) vals st) T
              (vault_secrets, [], []) of
         (vault_secrets', missing, mismatch) \<Rightarrow> (missing, mismatch, table_keys vault_secrets'))"
    by (simp only: audit_compare_def T unk)
  also have "\<dots> =
      ([] @ [p \<leftarrow> table_keys T. table_get vault_secrets (fst p) (snd p) = None],
       [] @ [p \<leftarrow> table_keys T.
              case table_get vault_secrets (fst p) (snd p) of
                None \<Rightarrow> False
              | Some cur \<Rightarrow> table_get T (fst p) (snd p) \<noteq> Some cur],
       table_keys (map (\<lambda>(a, d). (a, filter (\<lambda>e. table_get T a (fst e) = None) d))
                          vault_secrets))"
    by (simp only: audit_apps [OF R V] prod.case)
  finally show ?thesis by (simp only: 1 2 3 append_Nil)
qed

subsection \<open>The text of the report\<close>

lemma join_lines:
  "xs \<noteq> [] \<Longrightarrow> sep @ join sep xs = concat (map (\<lambda>x. sep @ x) xs)"
  by (induction sep xs rule: join.induct) auto

text \<open>
  A section of the report is empty for an empty group; otherwise it is the heading, then
  one line per entry in the order of the group (a line feed, the bullet, a space, the
  application, a space and the key), then a line feed.
\<close>

lemma report_section_lines:
  "report_section heading entries =
     (if entries = [] then []
      else heading
        @ concat (map (\<lambda>e. [CHR 0x0A, CHR 0xE2, CHR 0x80, CHR 0xA2, CHR '' '']
                          @ fst e @ '' '' @ snd e) entries)
        @ [CHR 0x0A])"
proof (cases "entries = []")
  case True
  then show ?thesis by (simp add: report_section_def)
next
  case False
  then have "map entry_text entries \<noteq> []" by simp
  from join_lines [OF this, of bullet_sep]
  have "bullet_sep @ join bullet_sep (map entry_text entries)
          = concat (map (\<lambda>e. bullet_sep @ entry_text e) entries)"
    by (simp add: comp_def)
  then show ?thesis
    using False by (simp add: report_section_def entry_text_def bullet_sep_def)
qed

section \<open>Properties of the per-secret rule evaluator\<close>

text \<open>
  C6. \<open>_resolve_secret\<close> applies the rule kinds in strict precedence order. A literal
  value (a non-empty \<open>config.value\<close>) is returned whatever the other rules are. Without
  one, a copy rule decides alone: the value of its source in the table of resolved
  secrets, or nothing while the source is unresolved, whatever the generate rule, the
  current value and the static value are. Without either, a generate rule decides: the
  current value if there is one and regeneration is off, otherwise a generated value
  (for the from-source variant once its source is resolved). Only when no rule applies
  is the static value used, and the current value after it.
\<close>

theorem resolve_secret_precedence:
  "(truthy (secret_value c) \<longrightarrow>
      resolve_secret gen n c r cur sv rg = (secret_value c, n))
   \<and> (\<not> truthy (secret_value c) \<and> copy_rules c = Some cr \<longrightarrow>
      resolve_secret gen n c r cur sv rg =
        (if truthy (table_get r (copy_application cr) (copy_key cr))
         then (table_get r (copy_application cr) (copy_key cr), n) else (None, n)))
   \<and> (\<not> truthy (secret_value c) \<and> copy_rules c = None \<and> generate c = Some g \<longrightarrow>
      resolve_secret gen n c r cur sv rg =
        (if truthy cur \<and> \<not> rg then (cur, n)
         else case g of
                SecretGenerateRules t \<Rightarrow> (Some (gen n g None), Suc n)
              | SourceSecretGenerateRules t k \<Rightarrow>
                  if truthy (table_get r (application c) k)
                  then (Some (gen n g (table_get r (application c) k)), Suc n)
                  else (None, n)))
   \<and> (\<not> truthy (secret_value c) \<and> copy_rules c = None \<and> generate c = None \<longrightarrow>
      resolve_secret gen n c r cur sv rg = (if truthy sv then sv else cur, n))"
  by (auto simp: resolve_secret_def Let_def split: generate_rules.splits)

theorem resolve_secret_precedence_witness:
  "truthy (secret_value (api_dbpass\<lparr>secret_value := Some ''literal'',
        generate := Some (SecretGenerateRules ''password'')\<rparr>))
   \<and> resolve_secret tally_generator 0
        (api_dbpass\<lparr>secret_value := Some ''literal'',
           generate := Some (SecretGenerateRules ''password'')\<rparr>)
        [(''db'', [(''password'', ''copied'')])] (Some ''current'') (Some ''static'') False
      = (Some ''literal'', 0)
   \<and> \<not> truthy (secret_value (api_dbpass\<lparr>generate := Some (SecretGenerateRules ''password'')\<rparr>))
   \<and> copy_rules (api_dbpass\<lparr>generate := Some (SecretGenerateRules ''password'')\<rparr>)
        = Some (SecretCopyRules ''db'' ''password'')
   \<and> resolve_secret tally_generator 0
        (api_dbpass\<lparr>generate := Some (SecretGenerateRules ''password'')\<rparr>)
        [(''db'', [(''password'', ''copied'')])] (Some ''current'') (Some ''static'') False
      = (Some ''copied'', 0)
   \<and> \<not> truthy (secret_value db_password) \<and> copy_rules db_password = None
   \<and> generate db_password = Some (SecretGenerateRules ''password'')
   \<and> resolve_secret tally_generator 0 db_password
        [(''db'', [(''password'', ''copied'')])] None (Some ''static'') False
      = (Some ''generated'', 1)
   \<and> \<not> truthy (secret_value (db_password\<lparr>generate := None\<rparr>))
   \<and> copy_rules (db_password\<lparr>generate := None\<rparr>) = None
   \<and> generate (db_password\<lparr>generate := None\<rparr>) = None
   \<and> resolve_secret tally_generator 0 (db_password\<lparr>generate := None\<rparr>)
        [(''db'', [(''password'', ''copied'')])] (Some ''current'') (Some ''static'') False
      = (Some ''static'', 0)"
  using
    resolve_secret_precedence [of
      "api_dbpass\<lparr>secret_value := Some ''literal'',
         generate := Some (SecretGenerateRules ''password'')\<rparr>"
      tally_generator 0 "[(''db'', [(''password'', ''copied'')])]" "Some ''current''"
      "Some ''static''" False]
    resolve_secret_precedence [of
      "api_dbpass\<lparr>generate := Some (SecretGenerateRules ''password'')\<rparr>"
      tally_generator 0 "[(''db'', [(''password'', ''copied'')])]" "Some ''current''"
      "Some ''static''" False "SecretCopyRules ''db'' ''password''"]
    resolve_secret_precedence [of db_password
      tally_generator 0 "[(''db'', [(''password'', ''copied'')])]" None
      "Some ''static''" False _ "SecretGenerateRules ''password''"]
    resolve_secret_precedence [of "db_password\<lparr>generate := None\<rparr>"
      tally_generator 0 "[(''db'', [(''password'', ''copied'')])]" "Some ''current''"
      "Some ''static''" False]
  by (simp add: api_dbpass_def db_password_def truthy_def table_get_def tally_generator_def)

text \<open>
  C7, as amended. For a generate-rule declaration that has a current value in the store:
  with \<open>regenerate = False\<close> the resolved value is the current value; with
  \<open>regenerate = True\<close> the current value is not reused and the result does not depend
  on it: a plain generate rule gets a fresh value from the generation function, and a
  from-source rule gets a value generated from its source once the source is resolved
  and is left unresolved until then.
\<close>

theorem generated_secret_stability:
  assumes "\<not> truthy (secret_value c)" and "copy_rules c = None"
    and "generate c = Some g" and "truthy cur"
  shows "resolve_secret gen n c r cur sv False = (cur, n)
    \<and> resolve_secret gen n c r cur sv True =
        (case g of
           SecretGenerateRules t \<Rightarrow> (Some (gen n g None), Suc n)
         | SourceSecretGenerateRules t k \<Rightarrow>
             if truthy (table_get r (application c) k)
             then (Some (gen n g (table_get r (application c) k)), Suc n)
             else (None, n))
    \<and> resolve_secret gen n c r cur sv True = resolve_secret gen n c r cur' sv True"
  using assms by (auto simp: resolve_secret_def Let_def split: generate_rules.splits)

theorem generated_secret_stability_witness:
  "\<not> truthy (secret_value db_password) \<and> copy_rules db_password = None
   \<and> generate db_password = Some (SecretGenerateRules ''password'')
   \<and> truthy (Some ''current'')
   \<and> resolve_secret tally_generator 3 db_password [] (Some ''current'') None False
       = (Some ''current'', 3)
   \<and> resolve_secret tally_generator 3 db_password [] (Some ''current'') None True
       = (Some ''generated+++'', 4)"
proof -
  have h1: "\<not> truthy (secret_value db_password)" by (simp add: db_password_def truthy_def)
  have h2: "copy_rules db_password = None" by (simp add: db_password_def)
  have h3: "generate db_password = Some (SecretGenerateRules ''password'')"
    by (simp add: db_password_def)
  have h4: "truthy (Some ''current'')" by (simp add: truthy_def)
  show ?thesis
    using h1 h2 h3 h4
      generated_secret_stability [OF h1 h2 h3 h4, of tally_generator 3 "[]" None]
    by (simp add: tally_generator_def numeral_3_eq_3)
qed

text \<open>
  C7 as stated fails: for a declaration with a from-source generate rule and a current
  value, \<open>regenerate = True\<close> and the source not resolved, \<open>_resolve_secret\<close> returns
  nothing, so no fresh value is produced; with the source not declared at all,
  \<open>_resolve_secrets\<close> raises.
\<close>

theorem from_source_regenerate_unresolved:
  "\<not> truthy (secret_value db_hash) \<and> copy_rules db_hash = None
   \<and> generate db_hash = Some (SourceSecretGenerateRules ''bcrypt-password-hash'' ''password'')
   \<and> truthy (Some ''current'')
   \<and> resolve_secret tally_generator 0 db_hash [] (Some ''current'') None True = (None, 0)
   \<and> resolve_secrets tally_generator [db_hash] [(''db'', [(''hash'', ''current'')])] None True
       = Inl (UnresolvedSecretsError [db_hash])"
  by (simp add: resolver_defs db_hash_def)

section \<open>Properties of the resolver\<close>

text \<open>
  C1. \<open>resolve_loop\<close> is a total function, so \<open>_resolve_secrets\<close> never loops.
  Whenever a full pass over the pending declarations resolves none of them, the loop
  raises \<open>UnresolvedSecretsError\<close> carrying exactly these pending declarations. The
  resolver never returns a partial result: when it returns, every declaration has a
  value in the result, and when it raises, the error carries a non-empty subsequence of
  the declarations, all others resolved, on which a further pass makes no progress. In
  particular two declarations of a set with unique \<open>(application, key)\<close> pairs that
  copy from each other always end in this error, which carries both.
\<close>

theorem unresolvable_secrets_error:
  "(P \<noteq> [] \<and> length P \<le> length (fst (snd (resolve_pass gen V S rg P (R, [], n))))
      \<longrightarrow> resolve_loop gen V S rg R P (length P) n p = Inl (UnresolvedSecretsError P))
   \<and> (\<forall>res. resolve_secrets gen secrets V statics rg = Inr res
        \<longrightarrow> (\<forall>c\<in>set secrets. truthy (table_get (applications res) (application c) (key c))))
   \<and> (\<forall>e. resolve_secrets gen secrets V statics rg = Inl e
        \<longrightarrow> (\<exists>P' R1 n1. e = UnresolvedSecretsError P' \<and> P' \<noteq> [] \<and> subseq P' secrets
               \<and> (\<forall>c\<in>set secrets. c \<in> set P'
                     \<or> truthy (table_get R1 (application c) (key c)))
               \<and> fst (snd (resolve_pass gen V
                     (case statics of None \<Rightarrow> empty_static_secrets | Some s \<Rightarrow> s) rg P'
                     (R1, [], n1))) = P'))
   \<and> (distinct (map key_of secrets)
        \<and> a \<in> set secrets \<and> \<not> truthy (secret_value a)
        \<and> copy_rules a = Some (SecretCopyRules (application b) (key b))
        \<and> b \<in> set secrets \<and> \<not> truthy (secret_value b)
        \<and> copy_rules b = Some (SecretCopyRules (application a) (key a))
        \<longrightarrow> (\<exists>P'. resolve_secrets gen secrets V statics rg = Inl (UnresolvedSecretsError P')
               \<and> a \<in> set P' \<and> b \<in> set P'))"
proof (intro conjI impI allI)
  assume "P \<noteq> [] \<and> length P \<le> length (fst (snd (resolve_pass gen V S rg P (R, [], n))))"
  then show "resolve_loop gen V S rg R P (length P) n p = Inl (UnresolvedSecretsError P)"
    by (simp add: resolve_loop_stalled)
next
  fix res assume "resolve_secrets gen secrets V statics rg = Inr res"
  then have "covered secrets [] (applications res)"
    using resolve_secrets_outcome [where gen = gen and secrets = secrets and V = V and statics = statics and rg = rg] by simp
  then show "\<forall>c\<in>set secrets. truthy (table_get (applications res) (application c) (key c))"
    by (simp add: covered_def)
next
  fix e assume "resolve_secrets gen secrets V statics rg = Inl e"
  then obtain P' where e: "e = UnresolvedSecretsError P'"
    and st: "stalled gen V (case statics of None \<Rightarrow> empty_static_secrets | Some s \<Rightarrow> s) rg
               secrets P'"
    using resolve_secrets_outcome [where gen = gen and secrets = secrets and V = V and statics = statics and rg = rg] by auto
  from st obtain R1 n1 where "P' \<noteq> []" and "covered secrets P' R1"
    and "fst (snd (resolve_pass gen V
           (case statics of None \<Rightarrow> empty_static_secrets | Some s \<Rightarrow> s) rg P'
           (R1, [], n1))) = P'"
    unfolding stalled_def by blast
  then show "\<exists>P' R1 n1. e = UnresolvedSecretsError P' \<and> P' \<noteq> [] \<and> subseq P' secrets
               \<and> (\<forall>c\<in>set secrets. c \<in> set P'
                     \<or> truthy (table_get R1 (application c) (key c)))
               \<and> fst (snd (resolve_pass gen V
                     (case statics of None \<Rightarrow> empty_static_secrets | Some s \<Rightarrow> s) rg P'
                     (R1, [], n1))) = P'"
    using e unfolding covered_def by blast
next
  assume "distinct (map key_of secrets)
        \<and> a \<in> set secrets \<and> \<not> truthy (secret_value a)
        \<and> copy_rules a = Some (SecretCopyRules (application b) (key b))
        \<and> b \<in> set secrets \<and> \<not> truthy (secret_value b)
        \<and> copy_rules b = Some (SecretCopyRules (application a) (key a))"
  then show "\<exists>P'. resolve_secrets gen secrets V statics rg = Inl (UnresolvedSecretsError P')
               \<and> a \<in> set P' \<and> b \<in> set P'"
    using copy_cycle_stuck [where secrets = secrets and a = a and b = b] by simp
qed

theorem unresolvable_secrets_error_witness:
  "[api_dbpass] \<noteq> []
   \<and> length [api_dbpass]
       \<le> length (fst (snd (resolve_pass tally_generator [] empty_static_secrets False
                             [api_dbpass] ([], [], 0))))
   \<and> resolve_loop tally_generator [] empty_static_secrets False [] [api_dbpass]
        (length [api_dbpass]) 0 0 = Inl (UnresolvedSecretsError [api_dbpass])
   \<and> resolve_secrets tally_generator [api_dbpass, db_password] [] None False
       = Inr \<lparr>applications = [(''db'', [(''password'', ''generated'')]),
                                (''api'', [(''dbpass'', ''generated'')])],
              pull_secret = None\<rparr>
   \<and> truthy (table_get [(''db'', [(''password'', ''generated'')]),
                         (''api'', [(''dbpass'', ''generated'')])]
               (application api_dbpass) (key api_dbpass))
   \<and> truthy (table_get [(''db'', [(''password'', ''generated'')]),
                         (''api'', [(''dbpass'', ''generated'')])]
               (application db_password) (key db_password))
   \<and> resolve_secrets tally_generator [api_dbpass] [] None False
       = Inl (UnresolvedSecretsError [api_dbpass])
   \<and> subseq [api_dbpass] [api_dbpass]
   \<and> distinct (map key_of [front_token, db_password, back_token])
   \<and> front_token \<in> set [front_token, db_password, back_token]
   \<and> \<not> truthy (secret_value front_token)
   \<and> copy_rules front_token = Some (SecretCopyRules (application back_token) (key back_token))
   \<and> back_token \<in> set [front_token, db_password, back_token]
   \<and> \<not> truthy (secret_value back_token)
   \<and> copy_rules back_token = Some (SecretCopyRules (application front_token) (key front_token))
   \<and> resolve_secrets tally_generator [front_token, db_password, back_token] [] None False
       = Inl (UnresolvedSecretsError [front_token, back_token])"
proof -
  have pass1: "resolve_pass tally_generator [] empty_static_secrets False [api_dbpass] ([], [], 0)
      = ([], [api_dbpass], 0)"
    by (simp add: resolver_defs api_dbpass_def)
  have stall: "resolve_loop tally_generator [] empty_static_secrets False [] [api_dbpass]
        (length [api_dbpass]) 0 0 = Inl (UnresolvedSecretsError [api_dbpass])"
    using unresolvable_secrets_error
      [where P = "[api_dbpass]" and gen = tally_generator and V = "[]"
         and S = empty_static_secrets and rg = False and R = "[]" and n = 0 and p = 0,
       THEN conjunct1] pass1
    by simp
  have ok: "resolve_secrets tally_generator [api_dbpass, db_password] [] None False
       = Inr \<lparr>applications = [(''db'', [(''password'', ''generated'')]),
                                (''api'', [(''dbpass'', ''generated'')])],
              pull_secret = None\<rparr>"
    by (simp add: resolver_defs api_dbpass_def db_password_def tally_generator_def)
  have whole: "\<forall>c\<in>set [api_dbpass, db_password].
         truthy (table_get [(''db'', [(''password'', ''generated'')]),
                            (''api'', [(''dbpass'', ''generated'')])] (application c) (key c))"
    using unresolvable_secrets_error
      [where secrets = "[api_dbpass, db_password]" and gen = tally_generator and V = "[]"
         and statics = None and rg = False,
       THEN conjunct2, THEN conjunct1] ok
    by simp
  have err: "resolve_secrets tally_generator [api_dbpass] [] None False
       = Inl (UnresolvedSecretsError [api_dbpass])"
    by (simp add: resolver_defs api_dbpass_def)
  have keys: "distinct (map key_of [front_token, db_password, back_token])"
    by (simp add: key_of_def front_token_def back_token_def db_password_def)
  have cyc: "\<not> truthy (secret_value front_token)"
    "copy_rules front_token = Some (SecretCopyRules (application back_token) (key back_token))"
    "\<not> truthy (secret_value back_token)"
    "copy_rules back_token = Some (SecretCopyRules (application front_token) (key front_token))"
    by (simp_all add: front_token_def back_token_def truthy_def)
  have cycle: "resolve_secrets tally_generator [front_token, db_password, back_token] [] None False
       = Inl (UnresolvedSecretsError [front_token, back_token])"
    by (simp add: resolver_defs front_token_def back_token_def db_password_def
          tally_generator_def)
  show ?thesis
    using pass1 stall ok whole err keys cyc cycle by simp
qed

text \<open>
  C10. A copy rule is served only from the table of secrets resolved in this run. If the
  pair that a copy rule references has no declaration of its own, \<open>_resolve_secrets\<close>
  raises \<open>UnresolvedSecretsError\<close> with the copying declaration among the pending ones,
  whatever the contents of Vault and the static secrets are.
\<close>

theorem copy_reads_only_resolved_table:
  assumes "d \<in> set secrets" and "\<not> truthy (secret_value d)"
    and "copy_rules d = Some cr"
    and "(copy_application cr, copy_key cr) \<notin> key_of ` set secrets"
  shows "\<exists>P. resolve_secrets gen secrets vault_secrets statics rg
                = Inl (UnresolvedSecretsError P) \<and> d \<in> set P"
proof -
  define K where "K = {(copy_application cr, copy_key cr)}"
  have "copies_into K d" using assms by (simp add: copies_into_def K_def)
  moreover have "key_of c \<notin> K" if "c \<in> set secrets" for c
    using assms(4) that by (auto simp: K_def image_iff)
  then have "\<forall>c\<in>set secrets. key_of c \<in> K \<longrightarrow> copies_into K c"
    by simp
  ultimately show ?thesis using resolve_secrets_stuck assms(1) by blast
qed

theorem copy_reads_only_resolved_table_witness:
  "api_dbpass \<in> set [api_dbpass] \<and> \<not> truthy (secret_value api_dbpass)
   \<and> copy_rules api_dbpass = Some (SecretCopyRules ''db'' ''password'')
   \<and> (copy_application (SecretCopyRules ''db'' ''password''),
       copy_key (SecretCopyRules ''db'' ''password'')) \<notin> key_of ` set [api_dbpass]
   \<and> table_get vault_with_db_password ''db'' ''password'' = Some ''in-vault''
   \<and> resolve_secrets tally_generator [api_dbpass] vault_with_db_password
        (Some statics_with_db_password) False
      = Inl (UnresolvedSecretsError [api_dbpass])"
proof -
  have h1: "api_dbpass \<in> set [api_dbpass]" by simp
  have h2: "\<not> truthy (secret_value api_dbpass)" by (simp add: api_dbpass_def truthy_def)
  have h3: "copy_rules api_dbpass = Some (SecretCopyRules ''db'' ''password'')"
    by (simp add: api_dbpass_def)
  have h4: "(copy_application (SecretCopyRules ''db'' ''password''),
       copy_key (SecretCopyRules ''db'' ''password'')) \<notin> key_of ` set [api_dbpass]"
    by (simp add: key_of_def api_dbpass_def)
  obtain P where P: "resolve_secrets tally_generator [api_dbpass] vault_with_db_password
        (Some statics_with_db_password) False = Inl (UnresolvedSecretsError P)"
      and "api_dbpass \<in> set P"
    using copy_reads_only_resolved_table [OF h1 h2 h3 h4] by blast
  have "resolve_secrets tally_generator [api_dbpass] vault_with_db_password
        (Some statics_with_db_password) False = Inl (UnresolvedSecretsError [api_dbpass])"
    by (simp add: resolver_defs api_dbpass_def vault_with_db_password_def
          statics_with_db_password_def)
  moreover have "table_get vault_with_db_password ''db'' ''password'' = Some ''in-vault''"
    by (simp add: table_get_def vault_with_db_password_def)
  ultimately show ?thesis using h1 h2 h3 h4 P by simp
qed

text \<open>
  C2, as amended. Let the references of a declaration set form a directed acyclic graph
  over the declarations (every copy or generate-from-source reference points to a pair
  declared with a strictly lower rank, all ranks below \<open>N\<close>), let every declaration
  without a literal value, copy rule or generate rule have a non-empty static or current
  value, and let the generation function return non-empty values. Then
  \<open>_resolve_secrets\<close> returns after at most \<open>N\<close> passes, and the resolved set holds a
  non-empty value for every declaration, exactly the declared pairs, each once.
\<close>

theorem resolve_secrets_converges:
  assumes "ranked rk secrets" and "\<forall>c\<in>set secrets. rk c < N"
    and "\<forall>c\<in>set secrets.
           sourced vault_secrets (case statics of None \<Rightarrow> empty_static_secrets | Some s \<Rightarrow> s) c"
    and "\<forall>n g other. gen n g other \<noteq> []"
  shows "\<exists>R p. resolve_loop gen vault_secrets
                 (case statics of None \<Rightarrow> empty_static_secrets | Some s \<Rightarrow> s) rg
                 [] secrets (length secrets) 0 0 = Inr (R, p)
           \<and> p \<le> N
           \<and> resolve_secrets gen secrets vault_secrets statics rg =
               Inr \<lparr>applications = R,
                    pull_secret = static_pull_secret
                      (case statics of None \<Rightarrow> empty_static_secrets | Some s \<Rightarrow> s)\<rparr>
           \<and> (\<forall>c\<in>set secrets. truthy (table_get R (application c) (key c)))
           \<and> set (table_keys R) = key_of ` set secrets
           \<and> distinct (table_keys R)"
proof -
  define S where "S = (case statics of None \<Rightarrow> empty_static_secrets | Some s \<Rightarrow> s)"
  have src: "\<forall>c\<in>set secrets. sourced vault_secrets S c" using assms(3) by (simp add: S_def)
  from resolve_loop_converges [OF assms(1,2) src assms(4) covered_init well_formed_Nil,
      where p = 0 and rg = rg and n = 0]
  obtain R p where loop: "resolve_loop gen vault_secrets S rg [] secrets (length secrets) 0 0
        = Inr (R, p)"
    and p: "p \<le> N" and cov: "covered secrets [] R" and wf: "well_formed R"
    by auto
  have res: "resolve_secrets gen secrets vault_secrets statics rg =
      Inr \<lparr>applications = R, pull_secret = static_pull_secret S\<rparr>"
    using loop by (simp add: resolve_secrets_def S_def)
  have all: "\<forall>c\<in>set secrets. truthy (table_get R (application c) (key c))"
    using cov by (simp add: covered_def)
  show ?thesis
    using loop p res all covered_table_keys [OF cov wf] distinct_table_keys [OF wf]
    unfolding S_def by blast
qed

theorem resolve_secrets_converges_witness:
  "ranked reference_count [api_dbpass, db_password]
   \<and> reference_count api_dbpass < 2 \<and> reference_count db_password < 2
   \<and> sourced [] empty_static_secrets api_dbpass
   \<and> sourced [] empty_static_secrets db_password
   \<and> (\<forall>n g other. tally_generator n g other \<noteq> [])
   \<and> resolve_loop tally_generator [] empty_static_secrets False [] [api_dbpass, db_password]
        (length [api_dbpass, db_password]) 0 0
      = Inr ([(''db'', [(''password'', ''generated'')]),
              (''api'', [(''dbpass'', ''generated'')])], 2)
   \<and> resolve_secrets tally_generator [api_dbpass, db_password] [] None False
      = Inr \<lparr>applications = [(''db'', [(''password'', ''generated'')]),
                               (''api'', [(''dbpass'', ''generated'')])],
             pull_secret = None\<rparr>
   \<and> table_keys [(''db'', [(''password'', ''generated'')]),
                  (''api'', [(''dbpass'', ''generated'')])]
      = [key_of db_password, key_of api_dbpass]"
proof -
  have h1: "ranked reference_count [api_dbpass, db_password]"
    by (simp add: ranked_def reference_count_def references_def key_of_def api_dbpass_def
          db_password_def)
  have h2: "\<forall>c\<in>set [api_dbpass, db_password]. reference_count c < 2"
    by (simp add: reference_count_def references_def api_dbpass_def db_password_def)
  have h3: "\<forall>c\<in>set [api_dbpass, db_password].
      sourced [] (case None of None \<Rightarrow> empty_static_secrets | Some s \<Rightarrow> s) c"
    by (simp add: sourced_def api_dbpass_def db_password_def)
  have h4: "\<forall>n g other. tally_generator n g other \<noteq> []"
    by (simp add: tally_generator_def)
  have run: "resolve_loop tally_generator [] empty_static_secrets False [] [api_dbpass, db_password]
        (length [api_dbpass, db_password]) 0 0
      = Inr ([(''db'', [(''password'', ''generated'')]),
              (''api'', [(''dbpass'', ''generated'')])], 2)"
    by (simp add: resolver_defs api_dbpass_def db_password_def tally_generator_def)
  have keys: "table_keys [(''db'', [(''password'', ''generated'')]),
                  (''api'', [(''dbpass'', ''generated'')])]
      = [key_of db_password, key_of api_dbpass]"
    by (simp add: table_keys_def key_of_def api_dbpass_def db_password_def)
  from resolve_secrets_converges [OF h1 h2 h3 h4, of False]
  obtain R p where "resolve_loop tally_generator [] empty_static_secrets False []
      [api_dbpass, db_password] (length [api_dbpass, db_password]) 0 0 = Inr (R, p)"
    and "p \<le> 2"
    and "resolve_secrets tally_generator [api_dbpass, db_password] [] None False =
      Inr \<lparr>applications = R, pull_secret = static_pull_secret empty_static_secrets\<rparr>"
    by auto
  then show ?thesis
    using h1 h2 h3 h4 run keys by (simp add: empty_static_secrets_def)
qed

text \<open>
  C2 as stated fails: a single declaration without any rule, for which neither a static
  nor a current value exists, has no references at all, and \<open>_resolve_secrets\<close> raises
  \<open>UnresolvedSecretsError\<close> for it.
\<close>

theorem unsourced_declaration_unresolved:
  "ranked reference_count [api_static]
   \<and> references api_static = []
   \<and> resolve_secrets tally_generator [api_static] [] None False
      = Inl (UnresolvedSecretsError [api_static])"
  by (simp add: ranked_def reference_count_def references_def key_of_def resolver_defs
        api_static_def)

text \<open>
  C9. Whenever \<open>_resolve_secrets\<close> succeeds on a declaration set with unique
  \<open>(application, key)\<close> pairs, the resolved value of every copy-rule declaration (a
  copy rule and no literal value) is present and identical to the resolved value of the
  pair that its rule references.
\<close>

theorem copy_fidelity:
  assumes "distinct (map key_of secrets)"
    and "resolve_secrets gen secrets vault_secrets statics rg = Inr resolved"
    and "c \<in> set secrets" and "\<not> truthy (secret_value c)" and "copy_rules c = Some cr"
  shows "table_get (applications resolved) (application c) (key c)
           = table_get (applications resolved) (copy_application cr) (copy_key cr)
       \<and> truthy (table_get (applications resolved) (application c) (key c))"
proof -
  define S where "S = (case statics of None \<Rightarrow> empty_static_secrets | Some s \<Rightarrow> s)"
  obtain R p where loop: "resolve_loop gen vault_secrets S rg [] secrets (length secrets) 0 0
        = Inr (R, p)" and R: "applications resolved = R"
    using assms(2) unfolding resolve_secrets_def Let_def S_def
    by (cases "resolve_loop gen vault_secrets
          (case statics of None \<Rightarrow> empty_static_secrets | Some s \<Rightarrow> s) rg [] secrets
          (length secrets) 0 0") auto
  have "distinct secrets" using assms(1) by (simp add: distinct_map)
  from resolve_loop_faithful [OF assms(1) this _ settled_init loop] assms(3)
  have "faithful R c" by simp
  then show ?thesis using assms(4,5) R by (auto simp: faithful_def)
qed

theorem copy_fidelity_witness:
  "distinct (map key_of [api_dbpass, db_password])
   \<and> resolve_secrets tally_generator [api_dbpass, db_password] [] None False
      = Inr \<lparr>applications = [(''db'', [(''password'', ''generated'')]),
                               (''api'', [(''dbpass'', ''generated'')])],
             pull_secret = None\<rparr>
   \<and> api_dbpass \<in> set [api_dbpass, db_password]
   \<and> \<not> truthy (secret_value api_dbpass)
   \<and> copy_rules api_dbpass = Some (SecretCopyRules ''db'' ''password'')
   \<and> table_get [(''db'', [(''password'', ''generated'')]),
                  (''api'', [(''dbpass'', ''generated'')])] ''api'' ''dbpass''
      = table_get [(''db'', [(''password'', ''generated'')]),
                   (''api'', [(''dbpass'', ''generated'')])] ''db'' ''password''"
proof -
  have h1: "distinct (map key_of [api_dbpass, db_password])"
    by (simp add: key_of_def api_dbpass_def db_password_def)
  have h2: "resolve_secrets tally_generator [api_dbpass, db_password] [] None False
      = Inr \<lparr>applications = [(''db'', [(''password'', ''generated'')]),
                               (''api'', [(''dbpass'', ''generated'')])],
             pull_secret = None\<rparr>"
    by (simp add: resolver_defs api_dbpass_def db_password_def tally_generator_def)
  have h3: "api_dbpass \<in> set [api_dbpass, db_password]" by simp
  have h4: "\<not> truthy (secret_value api_dbpass)" by (simp add: api_dbpass_def truthy_def)
  have h5: "copy_rules api_dbpass = Some (SecretCopyRules ''db'' ''password'')"
    by (simp add: api_dbpass_def)
  show ?thesis
    using h1 h2 h3 h4 h5 copy_fidelity [OF h1 h2 h3 h4 h5]
    by (simp add: api_dbpass_def)
qed

section \<open>Properties of the reconciler\<close>

lemmas sync_defs =
  sync_def sync_application_secrets_def sync_pull_secret_def clean_vault_secrets_def
  dict_eq_def apply_ops_def

lemma dict_eq_map_of: "dict_eq a b \<longleftrightarrow> map_of a = map_of b"
proof
  assume "dict_eq a b"
  then have keys: "\<And>k. k \<in> fst ` set a \<union> fst ` set b \<Longrightarrow> map_of a k = map_of b k"
    by (auto simp: dict_eq_def list_all_iff)
  show "map_of a = map_of b"
  proof
    fix k
    show "map_of a k = map_of b k"
    proof (cases "k \<in> fst ` set a \<union> fst ` set b")
      case True
      then show ?thesis by (rule keys)
    next
      case False
      then have "map_of a k = None" and "map_of b k = None"
        by (simp_all add: map_of_eq_None_iff)
      then show ?thesis by simp
    qed
  qed
next
  assume "map_of a = map_of b"
  then show "dict_eq a b" by (simp add: dict_eq_def list_all_iff)
qed

lemma resolve_secrets_Nil:
  "resolve_secrets gen [] vault_secrets (Some s) rg =
     Inr \<lparr>applications = [], pull_secret = static_pull_secret s\<rparr>"
  by (simp add: resolve_secrets_def resolve_loop.simps)

lemma resolve_secrets_pull_secret:
  assumes "resolve_secrets gen secrets vault_secrets statics rg = Inr resolved"
  shows "pull_secret resolved =
           static_pull_secret (case statics of None \<Rightarrow> empty_static_secrets | Some s \<Rightarrow> s)"
  using assms by (auto simp: resolve_secrets_def Let_def split: sum.splits prod.splits)

lemma sync_application_secrets_no_delete:
  "DeleteApplicationSecret app \<notin> set (sync_application_secrets vault_secrets resolved)"
  by (auto simp: sync_application_secrets_def split: option.splits if_splits)

lemma sync_pull_secret_no_delete:
  "DeleteApplicationSecret app \<notin> set (sync_pull_secret ser vault_secrets ps)"
  by (auto simp: sync_pull_secret_def Let_def split: option.splits)

lemma clean_vault_secrets_keeps_pull_secret:
  "DeleteApplicationSecret ''pull-secret'' \<notin> set (clean_vault_secrets vault_secrets resolved True)"
  by (auto simp: clean_vault_secrets_def Let_def split: option.splits if_splits)

lemma apply_op_keeps_entry:
  assumes "op \<noteq> DeleteApplicationSecret app" and "map_of store app \<noteq> None"
  shows "map_of (apply_op op store) app \<noteq> None"
  using assms
  by (cases op) (auto simp: table_set_def update_conv' delete_conv')

lemma apply_ops_keeps_entry:
  assumes "DeleteApplicationSecret app \<notin> set ops" and "map_of store app \<noteq> None"
  shows "map_of (apply_ops ops store) app \<noteq> None"
  using assms unfolding apply_ops_def
proof (induction ops arbitrary: store)
  case Nil
  then show ?case by simp
next
  case (Cons op ops)
  have "map_of (apply_op op store) app \<noteq> None"
    using Cons.prems by (intro apply_op_keeps_entry) auto
  then show ?case using Cons by simp
qed

lemma sync_pull_secret_cases:
  "(sync_pull_secret ser vault_secrets ps = []
      \<or> sync_pull_secret ser vault_secrets ps =
           [StoreApplicationSecret ''pull-secret'' [(''.dockerconfigjson'', ser ps)]])
   \<and> (sync_pull_secret ser vault_secrets ps = [] \<longleftrightarrow>
        (\<exists>cur. map_of vault_secrets ''pull-secret'' = Some cur
           \<and> map_of cur = [''.dockerconfigjson'' \<mapsto> ser ps]))
   \<and> (map_of vault_secrets ''pull-secret'' = Some [(''.dockerconfigjson'', old)]
        \<and> old \<noteq> ser ps \<longrightarrow>
      sync_pull_secret ser vault_secrets ps =
        [StoreApplicationSecret ''pull-secret'' [(''.dockerconfigjson'', ser ps)]])"
proof -
  have eq: "dict_eq [(''.dockerconfigjson'', ser ps)] cur
      \<longleftrightarrow> map_of cur = [''.dockerconfigjson'' \<mapsto> ser ps]" for cur
    by (auto simp: dict_eq_map_of)
  have one: "[''.dockerconfigjson'' \<mapsto> old] \<noteq> [''.dockerconfigjson'' \<mapsto> ser ps]"
    if "old \<noteq> ser ps"
    using that by (metis map_upd_eqD1)
  show ?thesis
    by (auto simp: sync_pull_secret_def Let_def eq one split: option.splits)
qed

text \<open>The operations of \<open>sync\<close>, in the order in which it issues them.\<close>

lemma sync_operations:
  assumes "resolve_secrets gen secrets vault_secrets
             (case statics of None \<Rightarrow> onepassword | Some s \<Rightarrow> Some s) rg = Inr resolved"
  shows "sync gen ser secrets vault_secrets statics onepassword rg del =
     Inr (sync_application_secrets vault_secrets resolved
          @ (case pull_secret resolved of
               None \<Rightarrow> []
             | Some ps \<Rightarrow>
                 if registries ps \<noteq> [] then sync_pull_secret ser vault_secrets ps else [])
          @ (if del then clean_vault_secrets vault_secrets resolved (pull_secret resolved \<noteq> None)
             else []))"
  using assms by (simp add: sync_def Let_def)

text \<open>
  C8. \<open>_sync_pull_secret\<close> serializes the pull secret into one value under the key
  \<open>.dockerconfigjson\<close> and compares the resulting one-key entry with the entry of
  \<open>pull-secret\<close> in Vault as a whole. It performs no operation when the two are equal
  and otherwise exactly one \<open>store_application_secret\<close> of the whole entry, never an
  update of a single key; a difference in one field of one registry, which changes the
  serialized value, gives this one operation. During \<open>sync\<close>, for every list of
  declarations and either value of \<open>delete\<close>, the operations are those of
  \<open>_sync_application_secrets\<close>, then those of \<open>_sync_pull_secret\<close> when the resolved
  pull secret has registries (none for the pull secret otherwise), then those of
  \<open>_clean_vault_secrets\<close> when \<open>delete\<close> is set.
\<close>

theorem pull_secret_atomic:
  "(sync_pull_secret ser vault_secrets ps = []
      \<or> sync_pull_secret ser vault_secrets ps =
           [StoreApplicationSecret ''pull-secret'' [(''.dockerconfigjson'', ser ps)]])
   \<and> (sync_pull_secret ser vault_secrets ps = [] \<longleftrightarrow>
        (\<exists>cur. map_of vault_secrets ''pull-secret'' = Some cur
           \<and> map_of cur = [''.dockerconfigjson'' \<mapsto> ser ps]))
   \<and> (map_of vault_secrets ''pull-secret'' = Some [(''.dockerconfigjson'', old)]
        \<and> old \<noteq> ser ps \<longrightarrow>
      sync_pull_secret ser vault_secrets ps =
        [StoreApplicationSecret ''pull-secret'' [(''.dockerconfigjson'', ser ps)]])
   \<and> (static_pull_secret s = Some ps \<and> registries ps \<noteq> [] \<longrightarrow>
      sync gen ser [] vault_secrets (Some s) onepassword rg False =
        Inr (sync_pull_secret ser vault_secrets ps))
   \<and> (resolve_secrets gen secrets vault_secrets
          (case statics of None \<Rightarrow> onepassword | Some s' \<Rightarrow> Some s') rg = Inr resolved
        \<and> pull_secret resolved = Some ps \<and> registries ps \<noteq> [] \<longrightarrow>
      sync gen ser secrets vault_secrets statics onepassword rg del =
        Inr (sync_application_secrets vault_secrets resolved
             @ sync_pull_secret ser vault_secrets ps
             @ (if del then clean_vault_secrets vault_secrets resolved True else [])))
   \<and> (resolve_secrets gen secrets vault_secrets
          (case statics of None \<Rightarrow> onepassword | Some s' \<Rightarrow> Some s') rg = Inr resolved
        \<and> pull_secret resolved = Some ps \<and> registries ps = [] \<longrightarrow>
      sync gen ser secrets vault_secrets statics onepassword rg del =
        Inr (sync_application_secrets vault_secrets resolved
             @ (if del then clean_vault_secrets vault_secrets resolved True else [])))
   \<and> (resolve_secrets gen secrets vault_secrets
          (case statics of None \<Rightarrow> onepassword | Some s' \<Rightarrow> Some s') rg = Inr resolved
        \<and> pull_secret resolved = None \<longrightarrow>
      sync gen ser secrets vault_secrets statics onepassword rg del =
        Inr (sync_application_secrets vault_secrets resolved
             @ (if del then clean_vault_secrets vault_secrets resolved False else [])))"
proof (intro conjI impI)
  show "sync_pull_secret ser vault_secrets ps = []
      \<or> sync_pull_secret ser vault_secrets ps =
           [StoreApplicationSecret ''pull-secret'' [(''.dockerconfigjson'', ser ps)]]"
    by (rule sync_pull_secret_cases [THEN conjunct1])
  show "sync_pull_secret ser vault_secrets ps = [] \<longleftrightarrow>
        (\<exists>cur. map_of vault_secrets ''pull-secret'' = Some cur
           \<and> map_of cur = [''.dockerconfigjson'' \<mapsto> ser ps])"
    by (rule sync_pull_secret_cases [THEN conjunct2, THEN conjunct1])
next
  assume "map_of vault_secrets ''pull-secret'' = Some [(''.dockerconfigjson'', old)]
        \<and> old \<noteq> ser ps"
  then show "sync_pull_secret ser vault_secrets ps =
        [StoreApplicationSecret ''pull-secret'' [(''.dockerconfigjson'', ser ps)]]"
    using sync_pull_secret_cases [of ser vault_secrets ps old, THEN conjunct2, THEN conjunct2]
    by simp
next
  assume "static_pull_secret s = Some ps \<and> registries ps \<noteq> []"
  then show "sync gen ser [] vault_secrets (Some s) onepassword rg False =
        Inr (sync_pull_secret ser vault_secrets ps)"
    by (simp add: sync_def resolve_secrets_Nil sync_application_secrets_def)
next
  assume "resolve_secrets gen secrets vault_secrets
          (case statics of None \<Rightarrow> onepassword | Some s' \<Rightarrow> Some s') rg = Inr resolved
        \<and> pull_secret resolved = Some ps \<and> registries ps \<noteq> []"
  then show "sync gen ser secrets vault_secrets statics onepassword rg del =
        Inr (sync_application_secrets vault_secrets resolved
             @ sync_pull_secret ser vault_secrets ps
             @ (if del then clean_vault_secrets vault_secrets resolved True else []))"
    by (simp add: sync_operations)
next
  assume "resolve_secrets gen secrets vault_secrets
          (case statics of None \<Rightarrow> onepassword | Some s' \<Rightarrow> Some s') rg = Inr resolved
        \<and> pull_secret resolved = Some ps \<and> registries ps = []"
  then show "sync gen ser secrets vault_secrets statics onepassword rg del =
        Inr (sync_application_secrets vault_secrets resolved
             @ (if del then clean_vault_secrets vault_secrets resolved True else []))"
    by (simp add: sync_operations)
next
  assume "resolve_secrets gen secrets vault_secrets
          (case statics of None \<Rightarrow> onepassword | Some s' \<Rightarrow> Some s') rg = Inr resolved
        \<and> pull_secret resolved = None"
  then show "sync gen ser secrets vault_secrets statics onepassword rg del =
        Inr (sync_application_secrets vault_secrets resolved
             @ (if del then clean_vault_secrets vault_secrets resolved False else []))"
    by (simp add: sync_operations)
qed

theorem pull_secret_atomic_witness:
  "map_of outdated_vault ''pull-secret'' = Some [(''.dockerconfigjson'', ''ghcr.io bot old;'')]
   \<and> ''ghcr.io bot old;'' \<noteq> plain_dockerconfigjson (registry_pull_secret ''new'')
   \<and> sync_pull_secret plain_dockerconfigjson outdated_vault (registry_pull_secret ''new'')
      = [StoreApplicationSecret ''pull-secret'' [(''.dockerconfigjson'', ''ghcr.io bot new;'')]]
   \<and> static_pull_secret pull_secret_statics = Some (registry_pull_secret ''new'')
   \<and> registries (registry_pull_secret ''new'') \<noteq> []
   \<and> sync tally_generator plain_dockerconfigjson [] outdated_vault
        (Some pull_secret_statics) None False False
      = Inr [StoreApplicationSecret ''pull-secret'' [(''.dockerconfigjson'', ''ghcr.io bot new;'')]]
   \<and> resolve_secrets tally_generator [db_password] outdated_vault
        (Some pull_secret_statics) False
      = Inr \<lparr>applications = [(''db'', [(''password'', ''generated'')])],
             pull_secret = Some (registry_pull_secret ''new'')\<rparr>
   \<and> sync tally_generator plain_dockerconfigjson [db_password] outdated_vault
        (Some pull_secret_statics) None False True
      = Inr [StoreApplicationSecret ''db'' [(''password'', ''generated'')],
             StoreApplicationSecret ''pull-secret'' [(''.dockerconfigjson'', ''ghcr.io bot new;'')],
             DeleteApplicationSecret ''stale'']
   \<and> sync tally_generator plain_dockerconfigjson [db_password] outdated_vault
        (Some pull_secret_statics) None False False
      = Inr [StoreApplicationSecret ''db'' [(''password'', ''generated'')],
             StoreApplicationSecret ''pull-secret'' [(''.dockerconfigjson'', ''ghcr.io bot new;'')]]
   \<and> resolve_secrets tally_generator [db_password] outdated_vault
        (Some empty_pull_secret_statics) False
      = Inr \<lparr>applications = [(''db'', [(''password'', ''generated'')])],
             pull_secret = Some \<lparr>registries = []\<rparr>\<rparr>
   \<and> sync tally_generator plain_dockerconfigjson [db_password] outdated_vault
        (Some empty_pull_secret_statics) None False True
      = Inr [StoreApplicationSecret ''db'' [(''password'', ''generated'')],
             DeleteApplicationSecret ''stale'']
   \<and> resolve_secrets tally_generator [db_password] outdated_vault None False
      = Inr \<lparr>applications = [(''db'', [(''password'', ''generated'')])], pull_secret = None\<rparr>
   \<and> sync tally_generator plain_dockerconfigjson [db_password] outdated_vault None None False True
      = Inr [StoreApplicationSecret ''db'' [(''password'', ''generated'')],
             DeleteApplicationSecret ''pull-secret'',
             DeleteApplicationSecret ''stale'']"
proof -
  have old: "map_of outdated_vault ''pull-secret''
      = Some [(''.dockerconfigjson'', ''ghcr.io bot old;'')]"
    by (simp add: outdated_vault_def)
  have ser: "plain_dockerconfigjson (registry_pull_secret ''new'') = ''ghcr.io bot new;''"
    by (simp add: plain_dockerconfigjson_def registry_pull_secret_def)
  have ps: "static_pull_secret pull_secret_statics = Some (registry_pull_secret ''new'')"
    by (simp add: pull_secret_statics_def)
  have reg: "registries (registry_pull_secret ''new'') \<noteq> []"
    by (simp add: registry_pull_secret_def)
  have r1: "resolve_secrets tally_generator [db_password] outdated_vault
        (Some pull_secret_statics) False
      = Inr \<lparr>applications = [(''db'', [(''password'', ''generated'')])],
             pull_secret = Some (registry_pull_secret ''new'')\<rparr>"
    by (simp add: resolver_defs db_password_def outdated_vault_def pull_secret_statics_def
          tally_generator_def)
  have r2: "resolve_secrets tally_generator [db_password] outdated_vault
        (Some empty_pull_secret_statics) False
      = Inr \<lparr>applications = [(''db'', [(''password'', ''generated'')])],
             pull_secret = Some \<lparr>registries = []\<rparr>\<rparr>"
    by (simp add: resolver_defs db_password_def outdated_vault_def
          empty_pull_secret_statics_def tally_generator_def)
  have r3: "resolve_secrets tally_generator [db_password] outdated_vault None False
      = Inr \<lparr>applications = [(''db'', [(''password'', ''generated'')])], pull_secret = None\<rparr>"
    by (simp add: resolver_defs db_password_def outdated_vault_def tally_generator_def)
  have app: "sync_application_secrets outdated_vault
        \<lparr>applications = [(''db'', [(''password'', ''generated'')])], pull_secret = q\<rparr>
      = [StoreApplicationSecret ''db'' [(''password'', ''generated'')]]" for q
    by (simp add: sync_application_secrets_def outdated_vault_def)
  have pull: "sync_pull_secret plain_dockerconfigjson outdated_vault (registry_pull_secret ''new'')
      = [StoreApplicationSecret ''pull-secret'' [(''.dockerconfigjson'', ''ghcr.io bot new;'')]]"
    using pull_secret_atomic [where ser = plain_dockerconfigjson and vault_secrets = outdated_vault
        and ps = "registry_pull_secret ''new''" and old = "''ghcr.io bot old;''",
      THEN conjunct2, THEN conjunct2, THEN conjunct1] old
    by (simp add: ser)
  have cleanT: "clean_vault_secrets outdated_vault
        \<lparr>applications = [(''db'', [(''password'', ''generated'')])], pull_secret = q\<rparr> True
      = [DeleteApplicationSecret ''stale'']" for q
    by (simp add: clean_vault_secrets_def outdated_vault_def)
  have cleanF: "clean_vault_secrets outdated_vault
        \<lparr>applications = [(''db'', [(''password'', ''generated'')])], pull_secret = q\<rparr> False
      = [DeleteApplicationSecret ''pull-secret'', DeleteApplicationSecret ''stale'']" for q
    by (simp add: clean_vault_secrets_def outdated_vault_def)
  have s0: "sync tally_generator plain_dockerconfigjson [] outdated_vault
        (Some pull_secret_statics) None False False
      = Inr [StoreApplicationSecret ''pull-secret'' [(''.dockerconfigjson'', ''ghcr.io bot new;'')]]"
    using pull_secret_atomic [where ser = plain_dockerconfigjson and vault_secrets = outdated_vault
        and ps = "registry_pull_secret ''new''" and s = pull_secret_statics
        and gen = tally_generator and onepassword = None and rg = False,
      THEN conjunct2, THEN conjunct2, THEN conjunct2, THEN conjunct1] ps reg
    by (simp add: pull)
  have s1: "sync tally_generator plain_dockerconfigjson [db_password] outdated_vault
        (Some pull_secret_statics) None False del
      = Inr ([StoreApplicationSecret ''db'' [(''password'', ''generated'')],
              StoreApplicationSecret ''pull-secret'' [(''.dockerconfigjson'', ''ghcr.io bot new;'')]]
             @ (if del then [DeleteApplicationSecret ''stale''] else []))" for del
    using pull_secret_atomic [where ser = plain_dockerconfigjson and vault_secrets = outdated_vault
        and ps = "registry_pull_secret ''new''" and gen = tally_generator
        and secrets = "[db_password]" and statics = "Some pull_secret_statics"
        and onepassword = None and rg = False and del = del
        and resolved = "\<lparr>applications = [(''db'', [(''password'', ''generated'')])],
             pull_secret = Some (registry_pull_secret ''new'')\<rparr>",
      THEN conjunct2, THEN conjunct2, THEN conjunct2, THEN conjunct2, THEN conjunct1] r1 reg
    by (simp add: app pull cleanT)
  have s2: "sync tally_generator plain_dockerconfigjson [db_password] outdated_vault
        (Some empty_pull_secret_statics) None False True
      = Inr [StoreApplicationSecret ''db'' [(''password'', ''generated'')],
             DeleteApplicationSecret ''stale'']"
    using pull_secret_atomic [where ser = plain_dockerconfigjson and vault_secrets = outdated_vault
        and ps = "\<lparr>registries = []\<rparr>" and gen = tally_generator
        and secrets = "[db_password]" and statics = "Some empty_pull_secret_statics"
        and onepassword = None and rg = False and del = True
        and resolved = "\<lparr>applications = [(''db'', [(''password'', ''generated'')])],
             pull_secret = Some \<lparr>registries = []\<rparr>\<rparr>",
      THEN conjunct2, THEN conjunct2, THEN conjunct2, THEN conjunct2, THEN conjunct2,
      THEN conjunct1] r2
    by (simp add: app cleanT)
  have s3: "sync tally_generator plain_dockerconfigjson [db_password] outdated_vault None None
        False True
      = Inr [StoreApplicationSecret ''db'' [(''password'', ''generated'')],
             DeleteApplicationSecret ''pull-secret'',
             DeleteApplicationSecret ''stale'']"
    using pull_secret_atomic [where ser = plain_dockerconfigjson and vault_secrets = outdated_vault
        and gen = tally_generator
        and secrets = "[db_password]" and statics = None
        and onepassword = None and rg = False and del = True
        and resolved = "\<lparr>applications = [(''db'', [(''password'', ''generated'')])],
             pull_secret = None\<rparr>",
      THEN conjunct2, THEN conjunct2, THEN conjunct2, THEN conjunct2, THEN conjunct2,
      THEN conjunct2] r3
    by (simp add: app cleanF)
  show ?thesis
    using old ps reg r1 r2 r3 pull s0 s1 [of True] s1 [of False] s2 s3
    by (simp add: ser)
qed

text \<open>
  C5. When \<open>sync\<close> runs with \<open>delete = True\<close> and the static secrets carry a pull
  secret, no \<open>delete_application_secret\<close> is issued for \<open>pull-secret\<close>, whether or
  not that application is among the resolved ones, and an entry of \<open>pull-secret\<close>
  present in Vault before the run is present after it.
\<close>

theorem pull_secret_never_deleted:
  assumes "sync gen ser secrets vault_secrets statics onepassword rg True = Inr ops"
    and "(case statics of None \<Rightarrow> onepassword | Some s \<Rightarrow> Some s) = Some s"
    and "static_pull_secret s \<noteq> None"
  shows "DeleteApplicationSecret ''pull-secret'' \<notin> set ops
    \<and> (map_of vault_secrets ''pull-secret'' \<noteq> None
         \<longrightarrow> map_of (apply_ops ops vault_secrets) ''pull-secret'' \<noteq> None)"
proof -
  obtain resolved where res: "resolve_secrets gen secrets vault_secrets (Some s) rg = Inr resolved"
    and ops: "ops = sync_application_secrets vault_secrets resolved
        @ (case pull_secret resolved of
             None \<Rightarrow> []
           | Some ps \<Rightarrow> if registries ps \<noteq> [] then sync_pull_secret ser vault_secrets ps else [])
        @ clean_vault_secrets vault_secrets resolved (pull_secret resolved \<noteq> None)"
    using assms(1,2) by (auto simp: sync_def Let_def split: sum.splits)
  have "pull_secret resolved \<noteq> None"
    using resolve_secrets_pull_secret [OF res] assms(3) by simp
  then have nodel: "DeleteApplicationSecret ''pull-secret'' \<notin> set ops"
    unfolding ops
    by (auto simp: sync_application_secrets_no_delete sync_pull_secret_no_delete
          clean_vault_secrets_keeps_pull_secret split: option.splits)
  then show ?thesis by (simp add: apply_ops_keeps_entry)
qed

theorem pull_secret_never_deleted_witness:
  "sync tally_generator plain_dockerconfigjson [db_password] stale_vault
       (Some pull_secret_statics) None False True
     = Inr [StoreApplicationSecret ''db'' [(''password'', ''generated'')],
            DeleteApplicationSecret ''stale'']
   \<and> (case Some pull_secret_statics of None \<Rightarrow> None | Some s \<Rightarrow> Some s)
       = Some pull_secret_statics
   \<and> static_pull_secret pull_secret_statics \<noteq> None
   \<and> map_of stale_vault ''pull-secret'' \<noteq> None
   \<and> DeleteApplicationSecret ''pull-secret''
       \<notin> set [StoreApplicationSecret ''db'' [(''password'', ''generated'')],
                DeleteApplicationSecret ''stale'']
   \<and> map_of (apply_ops [StoreApplicationSecret ''db'' [(''password'', ''generated'')],
                          DeleteApplicationSecret ''stale''] stale_vault) ''pull-secret''
       = Some [(''.dockerconfigjson'', ''ghcr.io bot new;'')]"
proof -
  have run: "sync tally_generator plain_dockerconfigjson [db_password] stale_vault
       (Some pull_secret_statics) None False True
     = Inr [StoreApplicationSecret ''db'' [(''password'', ''generated'')],
            DeleteApplicationSecret ''stale'']"
    by (simp add: sync_defs resolver_defs pull_secret_statics_def stale_vault_def
          db_password_def tally_generator_def registry_pull_secret_def
          plain_dockerconfigjson_def)
  have h2: "(case Some pull_secret_statics of None \<Rightarrow> None | Some s \<Rightarrow> Some s)
       = Some pull_secret_statics" by simp
  have h3: "static_pull_secret pull_secret_statics \<noteq> None"
    by (simp add: pull_secret_statics_def)
  have "map_of (apply_ops [StoreApplicationSecret ''db'' [(''password'', ''generated'')],
                          DeleteApplicationSecret ''stale''] stale_vault) ''pull-secret''
       = Some [(''.dockerconfigjson'', ''ghcr.io bot new;'')]"
    by (simp add: apply_ops_def stale_vault_def)
  then show ?thesis
    using run h2 h3 pull_secret_never_deleted [OF run h2 h3]
    by (simp add: stale_vault_def)
qed

text \<open>
  C3. Two runs of \<open>sync\<close> in succession, with \<open>regenerate = False\<close> and
  \<open>delete = True\<close>, on a store in which one key of an application has the wrong value
  and another key is not declared. The first run updates the wrong key and then, in
  \<open>_clean_vault_secrets\<close>, stores the entry rebuilt from the snapshot read before the
  update, which puts the wrong value back. The second run, on the store left by the
  first, has to update the key again: it performs one store mutation.
\<close>

theorem sync_twice_repeats_update:
  "sync tally_generator plain_dockerconfigjson [api_token] drifted_vault None None False True
     = Inr [UpdateApplicationSecret ''api'' ''token'' ''new'',
            StoreApplicationSecret ''api'' [(''token'', ''old'')]]
   \<and> apply_ops [UpdateApplicationSecret ''api'' ''token'' ''new'',
                 StoreApplicationSecret ''api'' [(''token'', ''old'')]] drifted_vault
     = [(''api'', [(''token'', ''old'')])]
   \<and> sync tally_generator plain_dockerconfigjson [api_token]
        [(''api'', [(''token'', ''old'')])] None None False True
     = Inr [UpdateApplicationSecret ''api'' ''token'' ''new'']"
  by (simp add: sync_defs resolver_defs drifted_vault_def api_token_def table_set_def)

section \<open>Properties of the auditor\<close>

text \<open>
  C4. For a resolved set and a snapshot of Vault (two nested dictionaries), the
  comparison of \<open>audit\<close> yields three lists: the resolved pairs that are missing, the
  resolved pairs that are mismatches and the pairs of the snapshot that are unknown,
  each in the order in which the dictionaries are traversed. No pair occurs twice in
  the three lists together; every pair of the resolved set or of the snapshot is in the
  list of its class and in no other, and is in none of them exactly when it is ok. The
  report is the section of the missing secrets, then that of the mismatches, then that
  of the unknown secrets; a section is absent for an empty group and otherwise holds its
  heading and one bulleted line per pair, in the order of the list. \<open>audit\<close> returns
  this report when the resolver returns the resolved set, and the error of the resolver
  otherwise.
\<close>

theorem audit_classification:
  assumes "well_formed (applications resolved)" and "well_formed vault_secrets"
  shows "\<exists>missing mismatch unknown.
      audit_compare resolved vault_secrets = (missing, mismatch, unknown)
      \<and> missing = [p \<leftarrow> table_keys (applications resolved).
                     classification (applications resolved) vault_secrets p = Missing]
      \<and> mismatch = [p \<leftarrow> table_keys (applications resolved).
                     classification (applications resolved) vault_secrets p = Mismatch]
      \<and> unknown = [p \<leftarrow> table_keys vault_secrets.
                     classification (applications resolved) vault_secrets p = Unknown]
      \<and> distinct (missing @ mismatch @ unknown)
      \<and> (\<forall>p\<in>set (table_keys (applications resolved)) \<union> set (table_keys vault_secrets).
            (p \<in> set missing
               \<longleftrightarrow> classification (applications resolved) vault_secrets p = Missing)
            \<and> (p \<in> set mismatch
               \<longleftrightarrow> classification (applications resolved) vault_secrets p = Mismatch)
            \<and> (p \<in> set unknown
               \<longleftrightarrow> classification (applications resolved) vault_secrets p = Unknown)
            \<and> (p \<notin> set (missing @ mismatch @ unknown)
               \<longleftrightarrow> classification (applications resolved) vault_secrets p = Ok))
      \<and> audit_report (audit_compare resolved vault_secrets)
          = report_section ''Missing secrets:'' missing
            @ report_section ''Incorrect secrets:'' mismatch
            @ report_section ''Unknown secrets in Vault:'' unknown
      \<and> audit_report (audit_compare resolved vault_secrets)
          = (if missing = [] then []
              else ''Missing secrets:''
                @ concat (map (\<lambda>e. [CHR 0x0A, CHR 0xE2, CHR 0x80, CHR 0xA2, CHR '' ''] @ fst e @ '' '' @ snd e)
                     missing)
                @ [CHR 0x0A])
             @ (if mismatch = [] then []
              else ''Incorrect secrets:''
                @ concat (map (\<lambda>e. [CHR 0x0A, CHR 0xE2, CHR 0x80, CHR 0xA2, CHR '' ''] @ fst e @ '' '' @ snd e)
                     mismatch)
                @ [CHR 0x0A])
             @ (if unknown = [] then []
              else ''Unknown secrets in Vault:''
                @ concat (map (\<lambda>e. [CHR 0x0A, CHR 0xE2, CHR 0x80, CHR 0xA2, CHR '' ''] @ fst e @ '' '' @ snd e)
                     unknown)
                @ [CHR 0x0A])
      \<and> (resolve_secrets gen secrets vault_secrets
             (case statics of None \<Rightarrow> onepassword | Some s \<Rightarrow> Some s) False = Inr resolved
           \<longrightarrow> audit gen secrets vault_secrets statics onepassword
             = Inr ((if missing = [] then []
              else ''Missing secrets:''
                @ concat (map (\<lambda>e. [CHR 0x0A, CHR 0xE2, CHR 0x80, CHR 0xA2, CHR '' ''] @ fst e @ '' '' @ snd e)
                     missing)
                @ [CHR 0x0A])
             @ (if mismatch = [] then []
              else ''Incorrect secrets:''
                @ concat (map (\<lambda>e. [CHR 0x0A, CHR 0xE2, CHR 0x80, CHR 0xA2, CHR '' ''] @ fst e @ '' '' @ snd e)
                     mismatch)
                @ [CHR 0x0A])
             @ (if unknown = [] then []
              else ''Unknown secrets in Vault:''
                @ concat (map (\<lambda>e. [CHR 0x0A, CHR 0xE2, CHR 0x80, CHR 0xA2, CHR '' ''] @ fst e @ '' '' @ snd e)
                     unknown)
                @ [CHR 0x0A])))
      \<and> (resolve_secrets gen secrets vault_secrets
             (case statics of None \<Rightarrow> onepassword | Some s \<Rightarrow> Some s) False = Inl err
           \<longrightarrow> audit gen secrets vault_secrets statics onepassword = Inl err)"
proof -
  define T where "T = applications resolved"
  define missing where
    "missing = [p \<leftarrow> table_keys T. classification T vault_secrets p = Missing]"
  define mismatch where
    "mismatch = [p \<leftarrow> table_keys T. classification T vault_secrets p = Mismatch]"
  define unknown where
    "unknown = [p \<leftarrow> table_keys vault_secrets. classification T vault_secrets p = Unknown]"
  have wT: "well_formed T" using assms(1) by (simp add: T_def)
  have dT: "distinct (map fst T)" and dV: "distinct (map fst vault_secrets)"
    using wT assms(2) by (simp_all add: well_formed_def)
  have cmp: "audit_compare resolved vault_secrets = (missing, mismatch, unknown)"
    unfolding missing_def mismatch_def unknown_def
    by (rule audit_compare_filters [OF wT dV]) (simp add: T_def)
  have inT: "p \<in> set (table_keys T) \<longleftrightarrow> table_get T (fst p) (snd p) \<noteq> None" for p
    using table_keys_member [OF dT, of "fst p" "snd p"] by simp
  have m1: "p \<in> set missing \<longleftrightarrow> classification T vault_secrets p = Missing" for p
  proof
    assume "p \<in> set missing"
    then show "classification T vault_secrets p = Missing" by (simp add: missing_def)
  next
    assume c: "classification T vault_secrets p = Missing"
    then have "table_get T (fst p) (snd p) \<noteq> None"
      by (auto simp: classification_def split: option.splits)
    then show "p \<in> set missing" using c by (simp add: missing_def inT)
  qed
  have m2: "p \<in> set mismatch \<longleftrightarrow> classification T vault_secrets p = Mismatch" for p
  proof
    assume "p \<in> set mismatch"
    then show "classification T vault_secrets p = Mismatch" by (simp add: mismatch_def)
  next
    assume c: "classification T vault_secrets p = Mismatch"
    then have "table_get T (fst p) (snd p) \<noteq> None"
      by (auto simp: classification_def split: option.splits)
    then show "p \<in> set mismatch" using c by (simp add: mismatch_def inT)
  qed
  have m3': "classification T vault_secrets p = Unknown" if "p \<in> set unknown" for p
    using that by (simp add: unknown_def)
  have m3: "p \<in> set unknown \<longleftrightarrow> classification T vault_secrets p = Unknown"
    if p: "p \<in> set (table_keys T) \<union> set (table_keys vault_secrets)" for p
  proof
    assume "p \<in> set unknown"
    then show "classification T vault_secrets p = Unknown" by (rule m3')
  next
    assume c: "classification T vault_secrets p = Unknown"
    then have "table_get T (fst p) (snd p) = None"
      by (auto simp: classification_def split: option.splits if_splits)
    then have "p \<notin> set (table_keys T)" by (simp add: inT)
    then have "p \<in> set (table_keys vault_secrets)" using p by simp
    then show "p \<in> set unknown" using c by (simp add: unknown_def)
  qed
  have d1: "distinct missing" and d2: "distinct mismatch" and d3: "distinct unknown"
    using distinct_table_keys [OF wT] distinct_table_keys [OF assms(2)]
    by (simp_all add: missing_def mismatch_def unknown_def)
  have x12: "set missing \<inter> set mismatch = {}"
  proof (rule ccontr)
    assume "set missing \<inter> set mismatch \<noteq> {}"
    then obtain p where "p \<in> set missing" and "p \<in> set mismatch" by blast
    then have "classification T vault_secrets p = Missing"
      and "classification T vault_secrets p = Mismatch"
      by (simp_all add: m1 m2)
    then show False by simp
  qed
  have x13: "set missing \<inter> set unknown = {}"
  proof (rule ccontr)
    assume "set missing \<inter> set unknown \<noteq> {}"
    then obtain p where "p \<in> set missing" and "p \<in> set unknown" by blast
    then have "classification T vault_secrets p = Missing"
      and "classification T vault_secrets p = Unknown"
      by (simp_all add: m1 m3')
    then show False by simp
  qed
  have x23: "set mismatch \<inter> set unknown = {}"
  proof (rule ccontr)
    assume "set mismatch \<inter> set unknown \<noteq> {}"
    then obtain p where "p \<in> set mismatch" and "p \<in> set unknown" by blast
    then have "classification T vault_secrets p = Mismatch"
      and "classification T vault_secrets p = Unknown"
      by (simp_all add: m2 m3')
    then show False by simp
  qed
  have dist: "distinct (missing @ mismatch @ unknown)"
    using d1 d2 d3 x12 x13 x23 by (simp add: Int_Un_distrib)
  have m4: "p \<notin> set (missing @ mismatch @ unknown) \<longleftrightarrow> classification T vault_secrets p = Ok"
    if p: "p \<in> set (table_keys T) \<union> set (table_keys vault_secrets)" for p
  proof (cases "classification T vault_secrets p")
    case Ok
    then show ?thesis using m1 [of p] m2 [of p] m3 [OF p] by simp
  next
    case Missing
    then show ?thesis using m1 [of p] by simp
  next
    case Mismatch
    then show ?thesis using m2 [of p] by simp
  next
    case Unknown
    then show ?thesis using m3 [OF p] by simp
  qed
  have cls: "\<forall>p\<in>set (table_keys T) \<union> set (table_keys vault_secrets).
            (p \<in> set missing \<longleftrightarrow> classification T vault_secrets p = Missing)
            \<and> (p \<in> set mismatch \<longleftrightarrow> classification T vault_secrets p = Mismatch)
            \<and> (p \<in> set unknown \<longleftrightarrow> classification T vault_secrets p = Unknown)
            \<and> (p \<notin> set (missing @ mismatch @ unknown)
               \<longleftrightarrow> classification T vault_secrets p = Ok)"
  proof (intro ballI conjI)
    fix p assume p: "p \<in> set (table_keys T) \<union> set (table_keys vault_secrets)"
    show "p \<in> set missing \<longleftrightarrow> classification T vault_secrets p = Missing" by (rule m1)
    show "p \<in> set mismatch \<longleftrightarrow> classification T vault_secrets p = Mismatch" by (rule m2)
    show "p \<in> set unknown \<longleftrightarrow> classification T vault_secrets p = Unknown" by (rule m3 [OF p])
    show "p \<notin> set (missing @ mismatch @ unknown) \<longleftrightarrow> classification T vault_secrets p = Ok"
      by (rule m4 [OF p])
  qed
  have rep: "audit_report (audit_compare resolved vault_secrets)
          = report_section ''Missing secrets:'' missing
            @ report_section ''Incorrect secrets:'' mismatch
            @ report_section ''Unknown secrets in Vault:'' unknown"
    by (simp only: cmp audit_report_def prod.case)
  have rep2: "audit_report (audit_compare resolved vault_secrets)
          = (if missing = [] then []
              else ''Missing secrets:''
                @ concat (map (\<lambda>e. [CHR 0x0A, CHR 0xE2, CHR 0x80, CHR 0xA2, CHR '' ''] @ fst e @ '' '' @ snd e)
                     missing)
                @ [CHR 0x0A])
             @ (if mismatch = [] then []
              else ''Incorrect secrets:''
                @ concat (map (\<lambda>e. [CHR 0x0A, CHR 0xE2, CHR 0x80, CHR 0xA2, CHR '' ''] @ fst e @ '' '' @ snd e)
                     mismatch)
                @ [CHR 0x0A])
             @ (if unknown = [] then []
              else ''Unknown secrets in Vault:''
                @ concat (map (\<lambda>e. [CHR 0x0A, CHR 0xE2, CHR 0x80, CHR 0xA2, CHR '' ''] @ fst e @ '' '' @ snd e)
                     unknown)
                @ [CHR 0x0A])"
    unfolding rep by (simp only: report_section_lines)
  have aud: "resolve_secrets gen secrets vault_secrets
             (case statics of None \<Rightarrow> onepassword | Some s \<Rightarrow> Some s) False = Inr resolved
           \<longrightarrow> audit gen secrets vault_secrets statics onepassword
             = Inr ((if missing = [] then []
              else ''Missing secrets:''
                @ concat (map (\<lambda>e. [CHR 0x0A, CHR 0xE2, CHR 0x80, CHR 0xA2, CHR '' ''] @ fst e @ '' '' @ snd e)
                     missing)
                @ [CHR 0x0A])
             @ (if mismatch = [] then []
              else ''Incorrect secrets:''
                @ concat (map (\<lambda>e. [CHR 0x0A, CHR 0xE2, CHR 0x80, CHR 0xA2, CHR '' ''] @ fst e @ '' '' @ snd e)
                     mismatch)
                @ [CHR 0x0A])
             @ (if unknown = [] then []
              else ''Unknown secrets in Vault:''
                @ concat (map (\<lambda>e. [CHR 0x0A, CHR 0xE2, CHR 0x80, CHR 0xA2, CHR '' ''] @ fst e @ '' '' @ snd e)
                     unknown)
                @ [CHR 0x0A]))"
  proof
    assume "resolve_secrets gen secrets vault_secrets
             (case statics of None \<Rightarrow> onepassword | Some s \<Rightarrow> Some s) False = Inr resolved"
    then have "audit gen secrets vault_secrets statics onepassword
        = Inr (audit_report (audit_compare resolved vault_secrets))"
      by (simp add: audit_def)
    then show "audit gen secrets vault_secrets statics onepassword
             = Inr ((if missing = [] then []
              else ''Missing secrets:''
                @ concat (map (\<lambda>e. [CHR 0x0A, CHR 0xE2, CHR 0x80, CHR 0xA2, CHR '' ''] @ fst e @ '' '' @ snd e)
                     missing)
                @ [CHR 0x0A])
             @ (if mismatch = [] then []
              else ''Incorrect secrets:''
                @ concat (map (\<lambda>e. [CHR 0x0A, CHR 0xE2, CHR 0x80, CHR 0xA2, CHR '' ''] @ fst e @ '' '' @ snd e)
                     mismatch)
                @ [CHR 0x0A])
             @ (if unknown = [] then []
              else ''Unknown secrets in Vault:''
                @ concat (map (\<lambda>e. [CHR 0x0A, CHR 0xE2, CHR 0x80, CHR 0xA2, CHR '' ''] @ fst e @ '' '' @ snd e)
                     unknown)
                @ [CHR 0x0A]))"
      by (simp only: rep2)
  qed
  have auderr: "resolve_secrets gen secrets vault_secrets
             (case statics of None \<Rightarrow> onepassword | Some s \<Rightarrow> Some s) False = Inl err
           \<longrightarrow> audit gen secrets vault_secrets statics onepassword = Inl err"
    by (simp add: audit_def)
  show ?thesis
    unfolding T_def [symmetric]
    apply (intro exI conjI)
             apply (rule cmp)
            apply (rule missing_def)
           apply (rule mismatch_def)
          apply (rule unknown_def)
         apply (rule dist)
        apply (rule cls)
       apply (rule rep)
      apply (rule rep2)
     apply (rule aud)
    apply (rule auderr)
    done
qed

theorem audit_classification_witness:
  "well_formed (applications audited_resolved) \<and> well_formed audited_vault
   \<and> audit_compare audited_resolved audited_vault
       = ([(''db'', ''password'')],
          [(''api'', ''token''), (''db'', ''user'')],
          [(''db'', ''legacy''), (''old-app'', ''key'')])
   \<and> table_keys (applications audited_resolved)
       = [(''api'', ''token''), (''api'', ''license''), (''db'', ''password''), (''db'', ''user'')]
   \<and> map (classification (applications audited_resolved) audited_vault)
         (table_keys (applications audited_resolved))
       = [Mismatch, Ok, Missing, Mismatch]
   \<and> table_keys audited_vault
       = [(''db'', ''legacy''), (''db'', ''user''), (''api'', ''license''), (''api'', ''token''),
          (''old-app'', ''key'')]
   \<and> map (classification (applications audited_resolved) audited_vault)
         (table_keys audited_vault)
       = [Unknown, Mismatch, Ok, Mismatch, Unknown]
   \<and> audit_report (audit_compare audited_resolved audited_vault)
       = report_section ''Missing secrets:'' [(''db'', ''password'')]
         @ report_section ''Incorrect secrets:'' [(''api'', ''token''), (''db'', ''user'')]
         @ report_section ''Unknown secrets in Vault:''
             [(''db'', ''legacy''), (''old-app'', ''key'')]
   \<and> resolve_secrets tally_generator audited_secrets audited_vault None False
       = Inr audited_resolved
   \<and> audit tally_generator audited_secrets audited_vault None None
       = Inr (''Missing secrets:''
         @ [CHR 0x0A, CHR 0xE2, CHR 0x80, CHR 0xA2] @ '' db password'' @ [CHR 0x0A]
         @ ''Incorrect secrets:''
         @ [CHR 0x0A, CHR 0xE2, CHR 0x80, CHR 0xA2] @ '' api token''
         @ [CHR 0x0A, CHR 0xE2, CHR 0x80, CHR 0xA2] @ '' db user'' @ [CHR 0x0A]
         @ ''Unknown secrets in Vault:''
         @ [CHR 0x0A, CHR 0xE2, CHR 0x80, CHR 0xA2] @ '' db legacy''
         @ [CHR 0x0A, CHR 0xE2, CHR 0x80, CHR 0xA2] @ '' old-app key'' @ [CHR 0x0A])
   \<and> resolve_secrets tally_generator [api_dbpass] audited_vault None False
       = Inl (UnresolvedSecretsError [api_dbpass])
   \<and> audit tally_generator [api_dbpass] audited_vault None None
       = Inl (UnresolvedSecretsError [api_dbpass])"
proof -
  have h1: "well_formed (applications audited_resolved)"
    by (simp add: well_formed_def audited_resolved_def)
  have h2: "well_formed audited_vault"
    by (simp add: well_formed_def audited_vault_def)
  have keysR: "table_keys (applications audited_resolved)
       = [(''api'', ''token''), (''api'', ''license''), (''db'', ''password''), (''db'', ''user'')]"
    by (simp add: table_keys_def audited_resolved_def)
  have keysV: "table_keys audited_vault
       = [(''db'', ''legacy''), (''db'', ''user''), (''api'', ''license''), (''api'', ''token''),
          (''old-app'', ''key'')]"
    by (simp add: table_keys_def audited_vault_def)
  have clsR: "map (classification (applications audited_resolved) audited_vault)
         [(''api'', ''token''), (''api'', ''license''), (''db'', ''password''), (''db'', ''user'')]
       = [Mismatch, Ok, Missing, Mismatch]"
    by (simp add: classification_def table_get_def audited_resolved_def audited_vault_def)
  have clsV: "map (classification (applications audited_resolved) audited_vault)
         [(''db'', ''legacy''), (''db'', ''user''), (''api'', ''license''), (''api'', ''token''),
          (''old-app'', ''key'')]
       = [Unknown, Mismatch, Ok, Mismatch, Unknown]"
    by (simp add: classification_def table_get_def audited_resolved_def audited_vault_def)
  have res: "resolve_secrets tally_generator audited_secrets audited_vault None False
       = Inr audited_resolved"
    by (simp add: resolver_defs audited_secrets_def audited_vault_def audited_resolved_def
          api_token_def api_static_def db_password_def db_user_def tally_generator_def)
  have err: "resolve_secrets tally_generator [api_dbpass] audited_vault None False
       = Inl (UnresolvedSecretsError [api_dbpass])"
    by (simp add: resolver_defs api_dbpass_def audited_vault_def)
  have cmp: "audit_compare audited_resolved audited_vault
       = ([(''db'', ''password'')],
          [(''api'', ''token''), (''db'', ''user'')],
          [(''db'', ''legacy''), (''old-app'', ''key'')])"
    by (simp add: audit_compare_def audit_step_def audited_resolved_def audited_vault_def)
  have rep: "audit_report (audit_compare audited_resolved audited_vault)
       = report_section ''Missing secrets:'' [(''db'', ''password'')]
         @ report_section ''Incorrect secrets:'' [(''api'', ''token''), (''db'', ''user'')]
         @ report_section ''Unknown secrets in Vault:''
             [(''db'', ''legacy''), (''old-app'', ''key'')]"
    by (simp add: cmp audit_report_def)
  have report: "audit tally_generator audited_secrets audited_vault None None
       = Inr (''Missing secrets:''
         @ [CHR 0x0A, CHR 0xE2, CHR 0x80, CHR 0xA2] @ '' db password'' @ [CHR 0x0A]
         @ ''Incorrect secrets:''
         @ [CHR 0x0A, CHR 0xE2, CHR 0x80, CHR 0xA2] @ '' api token''
         @ [CHR 0x0A, CHR 0xE2, CHR 0x80, CHR 0xA2] @ '' db user'' @ [CHR 0x0A]
         @ ''Unknown secrets in Vault:''
         @ [CHR 0x0A, CHR 0xE2, CHR 0x80, CHR 0xA2] @ '' db legacy''
         @ [CHR 0x0A, CHR 0xE2, CHR 0x80, CHR 0xA2] @ '' old-app key'' @ [CHR 0x0A])"
    using audit_classification [OF h1 h2, where gen = tally_generator
        and secrets = audited_secrets and statics = None and onepassword = None
        and err = "UnresolvedSecretsError []"] cmp res
    by - (elim exE conjE, simp)
  have report_err: "audit tally_generator [api_dbpass] audited_vault None None
       = Inl (UnresolvedSecretsError [api_dbpass])"
    using err by (simp add: audit_def)
  show ?thesis
    using h1 h2 cmp rep keysR keysV clsR clsV res err report report_err
    by simp
qed

end
